theory Spec2Isabelle
  imports Main
begin

section \<open>Tokens\<close>

text \<open>
  The scanner and the parser of \<^verbatim>\<open>Scanner_Parser.py\<close> exchange tokens as pairs
  \<^verbatim>\<open>(token_type, token_value)\<close> of Python strings. The kinds stay strings here, as in the
  source: \<^verbatim>\<open>NUMBER\<close>, \<^verbatim>\<open>ID\<close>, \<^verbatim>\<open>KEYWORD\<close>, \<^verbatim>\<open>OP\<close>, \<^verbatim>\<open>SEMI\<close>, \<^verbatim>\<open>LPAREN\<close>, \<^verbatim>\<open>RPAREN\<close>,
  \<^verbatim>\<open>LBRACE\<close>, \<^verbatim>\<open>RBRACE\<close>, and \<^verbatim>\<open>EOF\<close> for the token that \<^verbatim>\<open>peek\<close> makes up at the end.

  A Python \<^verbatim>\<open>str\<close> is a sequence of code points. A \<^typ>\<open>char\<close> of HOL has eight bits, so a
  \<^typ>\<open>string\<close> stands for a Python string whose code points are all below 256, one
  \<^typ>\<open>char\<close> per code point.
\<close>

type_synonym token = "string \<times> string"

section \<open>Scanner\<close>

subsection \<open>Character classes of the regular expressions\<close>

text \<open>
  \<^verbatim>\<open>\d\<close> in a \<^verbatim>\<open>str\<close> pattern is a Unicode decimal digit; below 256 these are \<^verbatim>\<open>0\<close> to \<^verbatim>\<open>9\<close>.
\<close>

definition is_digit :: "char \<Rightarrow> bool" where
  "is_digit c = (let k = (of_char c :: nat) in 48 \<le> k \<and> k \<le> 57)"

text \<open>\<^verbatim>\<open>[A-Za-z_]\<close>, the first character of an \<^verbatim>\<open>ID\<close>.\<close>

definition is_id_start :: "char \<Rightarrow> bool" where
  "is_id_start c =
     (let k = (of_char c :: nat)
      in (65 \<le> k \<and> k \<le> 90) \<or> (97 \<le> k \<and> k \<le> 122) \<or> k = 95)"

text \<open>
  \<^verbatim>\<open>\w\<close> in a \<^verbatim>\<open>str\<close> pattern is the underscore or a Unicode alphanumeric. Below 256 these
  are the ASCII letters and digits, and from Latin-1 the two ordinal indicators, the micro
  sign, the superscript digits, the three vulgar fractions and the accented letters.
\<close>

definition is_word :: "char \<Rightarrow> bool" where
  "is_word c =
     (let k = (of_char c :: nat)
      in (48 \<le> k \<and> k \<le> 57) \<or> (65 \<le> k \<and> k \<le> 90) \<or> k = 95 \<or> (97 \<le> k \<and> k \<le> 122)
         \<or> k = 170 \<or> k = 178 \<or> k = 179 \<or> k = 181 \<or> k = 185 \<or> k = 186
         \<or> (188 \<le> k \<and> k \<le> 190) \<or> (192 \<le> k \<and> k \<le> 214)
         \<or> (216 \<le> k \<and> k \<le> 246) \<or> 248 \<le> k)"

text \<open>\<^verbatim>\<open>[ \t]\<close>, the characters of \<^verbatim>\<open>SKIP\<close>.\<close>

definition is_blank :: "char \<Rightarrow> bool" where
  "is_blank c = (c = CHR '' '' \<or> c = CHR 0x09)"

subsection \<open>The patterns of \<^verbatim>\<open>token_specification\<close>\<close>

text \<open>
  Each pattern is a function from the text at the current position to the lexeme it
  matches there, or \<open>None\<close>. No pattern is followed by anything inside the combined
  expression, so a greedy repetition keeps all it can take and is never backtracked.
\<close>

text \<open>\<^verbatim>\<open>\d+(\.\d*)?\<close>\<close>

definition re_number :: "string \<Rightarrow> string option" where
  "re_number s =
     (let ds = takeWhile is_digit s; r = dropWhile is_digit s
      in if ds = [] then None
         else (case r of
                 c # r' \<Rightarrow> if c = CHR ''.'' then Some (ds @ c # takeWhile is_digit r')
                           else Some ds
               | [] \<Rightarrow> Some ds))"

text \<open>\<^verbatim>\<open>[A-Za-z_]\w*\<close>\<close>

definition re_id :: "string \<Rightarrow> string option" where
  "re_id s =
     (case s of
        c # cs \<Rightarrow> if is_id_start c then Some (c # takeWhile is_word cs) else None
      | [] \<Rightarrow> None)"

text \<open>
  \<^verbatim>\<open>==|!=|<=|>=|&&|\|\||\+\+|--|[+\-*/%=<>]\<close>: the alternatives are tried from left to
  right and the first that matches is taken.
\<close>

definition two_char_ops :: "string list" where
  "two_char_ops = [''=='', ''!='', ''<='', ''>='', ''&&'', ''||'', ''++'', ''--'']"

definition one_char_ops :: "char list" where
  "one_char_ops = ''+-*/%=<>''"

definition re_op :: "string \<Rightarrow> string option" where
  "re_op s =
     (case find (\<lambda>op. take (length op) s = op) two_char_ops of
        Some op \<Rightarrow> Some op
      | None \<Rightarrow>
          (case s of
             c # cs \<Rightarrow> if c \<in> set one_char_ops then Some [c] else None
           | [] \<Rightarrow> None))"

text \<open>A pattern of one literal character: \<^verbatim>\<open>;\<close>, \<^verbatim>\<open>\(\<close>, \<^verbatim>\<open>\)\<close>, \<^verbatim>\<open>\{\<close>, \<^verbatim>\<open>\}\<close>, \<^verbatim>\<open>\n\<close>.\<close>

definition re_char :: "char \<Rightarrow> string \<Rightarrow> string option" where
  "re_char x s = (case s of c # cs \<Rightarrow> if c = x then Some [c] else None | [] \<Rightarrow> None)"

text \<open>\<^verbatim>\<open>[ \t]+\<close>\<close>

definition re_skip :: "string \<Rightarrow> string option" where
  "re_skip s = (let bs = takeWhile is_blank s in if bs = [] then None else Some bs)"

definition token_specification :: "(string \<times> (string \<Rightarrow> string option)) list" where
  "token_specification =
     [(''NUMBER'', re_number),
      (''ID'', re_id),
      (''OP'', re_op),
      (''SEMI'', re_char (CHR '';'')),
      (''LPAREN'', re_char (CHR ''('')),
      (''RPAREN'', re_char (CHR '')'')),
      (''LBRACE'', re_char (CHR ''{'')),
      (''RBRACE'', re_char (CHR ''}'')),
      (''SKIP'', re_skip),
      (''NEWLINE'', re_char (CHR 0x0A))]"

text \<open>
  \<^verbatim>\<open>token_regex\<close> joins the patterns with \<^verbatim>\<open>|\<close>, each in a named group: at a position the
  first pattern of the table that matches gives the match, and its name is
  \<^verbatim>\<open>mo.lastgroup\<close>.
\<close>

fun first_match :: "(string \<times> (string \<Rightarrow> string option)) list \<Rightarrow> string \<Rightarrow> (string \<times> string) option" where
  "first_match [] s = None"
| "first_match ((name, re) # spec) s =
     (case re s of Some v \<Rightarrow> Some (name, v) | None \<Rightarrow> first_match spec s)"

definition token_regex :: "string \<Rightarrow> (string \<times> string) option" where
  "token_regex s = first_match token_specification s"

subsection \<open>\<^verbatim>\<open>Scanner.tokenize\<close>\<close>

definition keyword_set :: "string list" where
  "keyword_set = [''int'', ''float'', ''double'', ''bool'', ''if'', ''else'', ''while'',
                  ''for'', ''true'', ''false'', ''return'', ''main'']"

text \<open>
  \<^verbatim>\<open>re.finditer\<close> looks for a match at the current position; where there is none it moves
  one character on, and after a match it goes on at the end of the match. The list built
  is \<^verbatim>\<open>self.tokens\<close>, empty when the scanner is created.
\<close>

function scan :: "string \<Rightarrow> token list" where
  "scan [] = []"
| "scan (c # cs) =
     (case token_regex (c # cs) of
        None \<Rightarrow> scan cs
      | Some (kind, val) \<Rightarrow>
          (if kind = ''ID'' \<and> val \<in> set keyword_set
             then (''KEYWORD'', val) # scan (drop (length val) (c # cs))
           else if kind \<in> {''SKIP'', ''NEWLINE''}
             then scan (drop (length val) (c # cs))
           else (kind, val) # scan (drop (length val) (c # cs))))"
  by pat_completeness auto
termination
proof -
  have number: "v \<noteq> []" if "re_number s = Some v" for s v
    using that by (auto simp: re_number_def Let_def split: if_splits list.splits)
  have ident: "v \<noteq> []" if "re_id s = Some v" for s v
    using that by (auto simp: re_id_def split: if_splits list.splits)
  have oper: "v \<noteq> []" if "re_op s = Some v" for s v
    using that
    by (auto simp: re_op_def two_char_ops_def split: if_splits list.splits option.splits)
  have lit: "v \<noteq> []" if "re_char x s = Some v" for x s v
    using that by (auto simp: re_char_def split: if_splits list.splits)
  have skip: "v \<noteq> []" if "re_skip s = Some v" for s v
    using that by (auto simp: re_skip_def Let_def split: if_splits)
  have nonempty: "v \<noteq> []" if "token_regex s = Some (k, v)" for s k v
    using that
    by (auto simp: token_regex_def token_specification_def split: option.splits
        dest: number ident oper lit skip)
  show ?thesis
    by (relation "measure length") (auto dest!: nonempty)
qed

definition tokenize :: "string \<Rightarrow> token list" where
  "tokenize code = scan code"

section \<open>Parser\<close>

subsection \<open>Errors and results\<close>

text \<open>
  The only exception the parser raises is \<^verbatim>\<open>SyntaxError\<close>, with a message. A rule of the
  grammar gives \<open>Some (Inr x)\<close> when it returns \<open>x\<close>, \<open>Some (Inl e)\<close> when it raises
  \<open>e\<close>, and \<open>None\<close> when the recursion bound given to it is used up before it returns.
\<close>

datatype error = SyntaxError string

type_synonym 'a result = "(error + 'a) option"

definition ok :: "'a \<Rightarrow> 'a result" where
  "ok x = Some (Inr x)"

definition raise :: "string \<Rightarrow> 'a result" where
  "raise msg = Some (Inl (SyntaxError msg))"

definition and_then :: "'a result \<Rightarrow> ('a \<Rightarrow> 'b result) \<Rightarrow> 'b result" where
  "and_then m f = (case m of None \<Rightarrow> None | Some (Inl e) \<Rightarrow> Some (Inl e) | Some (Inr x) \<Rightarrow> f x)"

subsection \<open>The text of a token in a message\<close>

text \<open>
  The messages format a token with an f-string, which gives Python's \<^verbatim>\<open>repr\<close> of the
  pair: the \<^verbatim>\<open>repr\<close> of both strings, in parentheses, separated by a comma and a space.
  The \<^verbatim>\<open>repr\<close> of a string quotes it with \<^verbatim>\<open>'\<close>, or with \<^verbatim>\<open>"\<close> when the string has a \<^verbatim>\<open>'\<close>
  and no \<^verbatim>\<open>"\<close>; it escapes the backslash, the quote, tab, newline and carriage return, and
  writes every other non-printable character as \<^verbatim>\<open>\xhh\<close>.
\<close>

definition hex_digit :: "nat \<Rightarrow> char" where
  "hex_digit d = ''0123456789abcdef'' ! d"

definition repr_char :: "char \<Rightarrow> char \<Rightarrow> string" where
  "repr_char q c =
     (let k = (of_char c :: nat)
      in if c = q \<or> c = CHR 0x5C then [CHR 0x5C, c]
         else if c = CHR 0x09 then [CHR 0x5C, CHR ''t'']
         else if c = CHR 0x0A then [CHR 0x5C, CHR ''n'']
         else if c = CHR 0x0D then [CHR 0x5C, CHR ''r'']
         else if k < 32 \<or> (127 \<le> k \<and> k \<le> 160) \<or> k = 173
           then [CHR 0x5C, CHR ''x'', hex_digit (k div 16), hex_digit (k mod 16)]
         else [c])"

definition repr_str :: "string \<Rightarrow> string" where
  "repr_str s =
     (let q = (if CHR 0x27 \<in> set s \<and> CHR 0x22 \<notin> set s then CHR 0x22 else CHR 0x27)
      in q # concat (map (repr_char q) s) @ [q])"

definition repr_token :: "token \<Rightarrow> string" where
  "repr_token t = ''('' @ repr_str (fst t) @ '', '' @ repr_str (snd t) @ '')''"

subsection \<open>The cursor: \<^verbatim>\<open>peek\<close>, \<^verbatim>\<open>advance\<close>, \<^verbatim>\<open>match\<close>\<close>

text \<open>
  The parser's state is \<^verbatim>\<open>self.pos\<close>; \<^verbatim>\<open>self.tokens\<close> is never written. Every rule takes
  the tokens and the position and returns the new position with its value.
\<close>

definition peek :: "token list \<Rightarrow> nat \<Rightarrow> token" where
  "peek ts pos = (if pos < length ts then ts ! pos else (''EOF'', []))"

definition advance :: "nat \<Rightarrow> nat" where
  "advance pos = pos + 1"

definition match :: "token list \<Rightarrow> nat \<Rightarrow> string \<Rightarrow> string option \<Rightarrow> bool \<times> nat" where
  "match ts pos expected_type expected_value =
     (let (tok_type, tok_val) = peek ts pos
      in if tok_type = expected_type \<and> (expected_value = None \<or> expected_value = Some tok_val)
         then (True, advance pos)
         else (False, pos))"

subsection \<open>Expressions\<close>

text \<open>
  The first argument of a recursive rule bounds the depth of the calls below it; a turn of
  a loop counts as a call. The \<^verbatim>\<open>while\<close> loop of \<^verbatim>\<open>expression\<close> is
  \<open>expression_loop\<close>: its condition calls \<^verbatim>\<open>match\<close> first and reads
  \<^verbatim>\<open>self.tokens[self.pos - 1]\<close>, the token just taken, only when the match succeeded.
\<close>

definition binary_ops :: "string list" where
  "binary_ops = [''+'', ''-'', ''*'', ''/'', ''%'', ''||'', ''&&'', ''=='', ''!='',
                 ''<'', ''<='', ''>'', ''>='']"

function term_rule :: "nat \<Rightarrow> token list \<Rightarrow> nat \<Rightarrow> nat result"
  and expression :: "nat \<Rightarrow> token list \<Rightarrow> nat \<Rightarrow> nat result"
  and expression_loop :: "nat \<Rightarrow> token list \<Rightarrow> nat \<Rightarrow> nat result" where
  "term_rule 0 ts pos = None"
| "term_rule (Suc n) ts pos =
     (if fst (peek ts pos) \<in> {''NUMBER'', ''ID'', ''KEYWORD''} then ok (advance pos)
      else
        (let (m1, p1) = match ts pos ''LPAREN'' None
         in if m1 then
              and_then (expression n ts p1) (\<lambda>p2.
                let (m2, p3) = match ts p2 ''RPAREN'' None
                in if \<not> m2 then raise ''Missing closing parenthesis'' else ok p3)
            else raise (''Unexpected token in term: '' @ repr_token (peek ts p1))))"
| "expression 0 ts pos = None"
| "expression (Suc n) ts pos =
     and_then (term_rule n ts pos) (\<lambda>p. expression_loop n ts p)"
| "expression_loop 0 ts pos = None"
| "expression_loop (Suc n) ts pos =
     (let (m, p1) = match ts pos ''OP'' None
      in if m \<and> snd (ts ! (p1 - 1)) \<in> set binary_ops
         then and_then (term_rule n ts p1) (\<lambda>p2. expression_loop n ts p2)
         else ok p1)"
  by pat_completeness
     (auto simp only: sum.inject sum.distinct prod.inject nat.inject nat.distinct)
termination
  by (relation "measure (\<lambda>x. case x of Inl (n, _) \<Rightarrow> n | Inr (Inl (n, _)) \<Rightarrow> n
                                   | Inr (Inr (n, _)) \<Rightarrow> n)")
     (simp_all (no_asm))

subsection \<open>Statements without a block\<close>

definition declaration_rule :: "nat \<Rightarrow> token list \<Rightarrow> nat \<Rightarrow> (bool \<times> nat) result" where
  "declaration_rule n ts pos =
     (let p0 = advance pos;
          (m1, p1) = match ts p0 ''ID'' None
      in if m1 then
           (let (m2, p2) = match ts p1 ''OP'' (Some ''='')
            in and_then (if m2 then expression n ts p2 else ok p2) (\<lambda>p3.
                 let (m3, p4) = match ts p3 ''SEMI'' None
                 in if m3 then ok (True, p4) else ok (False, p4)))
         else ok (False, p1))"

definition assignment :: "nat \<Rightarrow> token list \<Rightarrow> nat \<Rightarrow> (bool \<times> nat) result" where
  "assignment n ts pos =
     (let p0 = advance pos;
          (m1, p1) = match ts p0 ''OP'' (Some ''='')
      in if m1 then
           and_then (expression n ts p1) (\<lambda>p2.
             let (m2, p3) = match ts p2 ''SEMI'' None
             in if m2 then ok (True, p3) else ok (False, p3))
         else ok (False, p1))"

definition return_statement :: "nat \<Rightarrow> token list \<Rightarrow> nat \<Rightarrow> (bool \<times> nat) result" where
  "return_statement n ts pos =
     (let p0 = advance pos
      in and_then (expression n ts p0) (\<lambda>p1.
           let (m, p2) = match ts p1 ''SEMI'' None
           in if \<not> m then raise ''Missing ';' after return'' else ok (True, p2)))"

subsection \<open>Statements and blocks\<close>

text \<open>The \<^verbatim>\<open>while\<close> loop of \<^verbatim>\<open>block\<close> is \<open>block_loop\<close>.\<close>

function statement :: "nat \<Rightarrow> token list \<Rightarrow> nat \<Rightarrow> (bool \<times> nat) result"
  and if_statement :: "nat \<Rightarrow> token list \<Rightarrow> nat \<Rightarrow> (bool \<times> nat) result"
  and while_loop :: "nat \<Rightarrow> token list \<Rightarrow> nat \<Rightarrow> (bool \<times> nat) result"
  and for_loop :: "nat \<Rightarrow> token list \<Rightarrow> nat \<Rightarrow> (bool \<times> nat) result"
  and block :: "nat \<Rightarrow> token list \<Rightarrow> nat \<Rightarrow> (bool \<times> nat) result"
  and block_loop :: "nat \<Rightarrow> token list \<Rightarrow> nat \<Rightarrow> (bool \<times> nat) result" where
  "statement 0 ts pos = None"
| "statement (Suc n) ts pos =
     (let (tok_type, tok_val) = peek ts pos
      in if tok_type = ''KEYWORD'' \<and> tok_val \<in> {''int'', ''float'', ''double'', ''bool''}
           then declaration_rule n ts pos
         else if tok_type = ''ID'' then assignment n ts pos
         else if tok_type = ''KEYWORD'' \<and> tok_val = ''if'' then if_statement n ts pos
         else if tok_type = ''KEYWORD'' \<and> tok_val = ''while'' then while_loop n ts pos
         else if tok_type = ''KEYWORD'' \<and> tok_val = ''for'' then for_loop n ts pos
         else if tok_type = ''KEYWORD'' \<and> tok_val = ''return'' then return_statement n ts pos
         else ok (False, pos))"
| "if_statement 0 ts pos = None"
| "if_statement (Suc n) ts pos =
     (let p0 = advance pos;
          (m1, p1) = match ts p0 ''LPAREN'' None
      in if \<not> m1 then raise ''Missing '(' after if''
         else
           and_then (expression n ts p1) (\<lambda>p2.
             let (m2, p3) = match ts p2 ''RPAREN'' None
             in if \<not> m2 then raise ''Missing ')' after if condition''
                else
                  and_then (block n ts p3) (\<lambda>(b1, p4).
                    if \<not> b1 then raise ''Missing block after if''
                    else
                      (let (m3, p5) = match ts p4 ''KEYWORD'' (Some ''else'')
                       in if m3 then
                            and_then (block n ts p5) (\<lambda>(b2, p6).
                              if \<not> b2 then raise ''Missing block after else''
                              else ok (True, p6))
                          else ok (True, p5)))))"
| "while_loop 0 ts pos = None"
| "while_loop (Suc n) ts pos =
     (let p0 = advance pos;
          (m1, p1) = match ts p0 ''LPAREN'' None
      in if \<not> m1 then raise ''Missing '(' after while''
         else
           and_then (expression n ts p1) (\<lambda>p2.
             let (m2, p3) = match ts p2 ''RPAREN'' None
             in if \<not> m2 then raise ''Missing ')' after while condition''
                else
                  and_then (block n ts p3) (\<lambda>(b, p4).
                    if \<not> b then raise ''Missing block after while''
                    else ok (True, p4))))"
| "for_loop 0 ts pos = None"
| "for_loop (Suc n) ts pos =
     (let p0 = advance pos;
          (m1, p1) = match ts p0 ''LPAREN'' None
      in if \<not> m1 then raise ''Missing '(' after for''
         else
           and_then (statement n ts p1) (\<lambda>(_, p2).
             and_then (expression n ts p2) (\<lambda>p3.
               let (_, p4) = match ts p3 ''SEMI'' None
               in and_then (assignment n ts p4) (\<lambda>(_, p5).
                    let (m2, p6) = match ts p5 ''RPAREN'' None
                    in if \<not> m2 then raise ''Missing ')' after for loop''
                       else
                         and_then (block n ts p6) (\<lambda>(b, p7).
                           if \<not> b then raise ''Missing block after for''
                           else ok (True, p7))))))"
| "block 0 ts pos = None"
| "block (Suc n) ts pos =
     (let (m, p) = match ts pos ''LBRACE'' None
      in if m then block_loop n ts p else ok (False, p))"
| "block_loop 0 ts pos = None"
| "block_loop (Suc n) ts pos =
     (let (m, p) = match ts pos ''RBRACE'' None
      in if \<not> m then
           and_then (statement n ts p) (\<lambda>(s, p').
             if \<not> s then raise (''Invalid statement in block: '' @ repr_token (peek ts p'))
             else block_loop n ts p')
         else ok (True, p))"
  by pat_completeness
     (auto simp only: sum.inject sum.distinct prod.inject nat.inject nat.distinct)
termination
  by (relation "measure (\<lambda>x. case x of
         Inl (Inl (n, _)) \<Rightarrow> n | Inl (Inr (Inl (n, _))) \<Rightarrow> n | Inl (Inr (Inr (n, _))) \<Rightarrow> n
       | Inr (Inl (n, _)) \<Rightarrow> n | Inr (Inr (Inl (n, _))) \<Rightarrow> n | Inr (Inr (Inr (n, _))) \<Rightarrow> n)")
     (simp_all (no_asm))

subsection \<open>\<^verbatim>\<open>Parser.parse\<close>\<close>

text \<open>
  The condition of the optional main function: four calls of \<^verbatim>\<open>match\<close> joined by
  \<^verbatim>\<open>and\<close>, which stops at the first that fails.
\<close>

definition main_header :: "token list \<Rightarrow> nat \<Rightarrow> bool \<times> nat" where
  "main_header ts pos =
     (let (m1, p1) = match ts pos ''KEYWORD'' (Some ''int'')
      in if \<not> m1 then (False, p1)
         else
           (let (m2, p2) = match ts p1 ''KEYWORD'' (Some ''main'')
            in if \<not> m2 then (False, p2)
               else
                 (let (m3, p3) = match ts p2 ''LPAREN'' None
                  in if \<not> m3 then (False, p3)
                     else match ts p3 ''RPAREN'' None)))"

text \<open>The kind and the value that each of the four calls of \<^verbatim>\<open>match\<close> expects.\<close>

definition main_prefix :: "(string \<times> string option) list" where
  "main_prefix = [(''KEYWORD'', Some ''int''), (''KEYWORD'', Some ''main''),
                  (''LPAREN'', None), (''RPAREN'', None)]"

text \<open>The loop \<^verbatim>\<open>while self.pos < len(self.tokens)\<close> over the top-level statements.\<close>

function parse_loop :: "nat \<Rightarrow> token list \<Rightarrow> nat \<Rightarrow> nat result" where
  "parse_loop 0 ts pos = None"
| "parse_loop (Suc n) ts pos =
     (if pos < length ts then
        and_then (statement n ts pos) (\<lambda>(s, p).
          if \<not> s then raise (''Unexpected token: '' @ repr_token (peek ts p))
          else parse_loop n ts p)
      else ok pos)"
  by pat_completeness
     (auto simp only: sum.inject sum.distinct prod.inject nat.inject nat.distinct)
termination
  by (relation "measure (\<lambda>(n, _). n)") (simp_all (no_asm))

text \<open>The body of the \<^verbatim>\<open>try\<close>, up to the \<^verbatim>\<open>print\<close> of the acceptance.\<close>

definition parse_body :: "nat \<Rightarrow> token list \<Rightarrow> nat result" where
  "parse_body n ts =
     (let (m, p) = main_header ts 0
      in and_then
           (if m then
              and_then (block n ts p) (\<lambda>(b, p').
                if \<not> b then raise ''Missing block after main()'' else ok p')
            else ok p)
           (\<lambda>p. parse_loop n ts p))"

text \<open>
  \<^verbatim>\<open>parse\<close> prints one line: \<^verbatim>\<open>Code accepted.\<close> is \<open>Accepted\<close>, and \<^verbatim>\<open>Syntax error:\<close>
  followed by the message of the exception is \<open>Rejected\<close> with that message.
\<close>

datatype outcome = Accepted | Rejected string

definition parse_fuel :: "nat \<Rightarrow> token list \<Rightarrow> outcome option" where
  "parse_fuel n ts =
     (case parse_body n ts of
        None \<Rightarrow> None
      | Some (Inl (SyntaxError msg)) \<Rightarrow> Some (Rejected msg)
      | Some (Inr p) \<Rightarrow> Some Accepted)"

text \<open>
  The depth of the calls is bounded by the number of tokens: \<open>parse\<close> runs with a bound
  that is never used up, whatever the tokens are, and a larger bound gives the same
  outcome; both are proved below. These definitions leave out the recursion limit of the
  interpreter; the next section has it.
\<close>

definition parse :: "token list \<Rightarrow> outcome option" where
  "parse ts = parse_fuel (2 * length ts + 6) ts"

section \<open>The parser on the stack of the interpreter\<close>

subsection \<open>Frames, \<^verbatim>\<open>RecursionError\<close>\<close>

text \<open>
  The interpreter keeps one frame for every call of a method that has not returned, and
  raises \<^verbatim>\<open>RecursionError\<close> at a call for which no frame is left (the recursion limit).
  No rule of the parser handles an exception, and \<^verbatim>\<open>parse\<close> handles only \<^verbatim>\<open>SyntaxError\<close>.
  In this section a call is given the number \<open>d\<close> of frames that are left when it is
  made: it takes one of them, and the calls in its body are made with the rest. Calls of
  built-in functions (\<^verbatim>\<open>len\<close>, \<^verbatim>\<open>print\<close>) take no frame. A run gives \<open>Some (Inr x)\<close> when it
  returns \<open>x\<close>, \<open>Some (Inl e)\<close> when it raises \<open>e\<close>, and \<open>None\<close> when a loop has not ended
  after the number of turns allowed to it.
\<close>

datatype exn = Syntax_Error string | Recursion_Error

type_synonym 'a run = "(exn + 'a) option"

definition returned :: "'a \<Rightarrow> 'a run" where
  "returned x = Some (Inr x)"

definition syntax_error :: "string \<Rightarrow> 'a run" where
  "syntax_error msg = Some (Inl (Syntax_Error msg))"

definition recursion_error :: "'a run" where
  "recursion_error = Some (Inl Recursion_Error)"

definition then_run :: "'a run \<Rightarrow> ('a \<Rightarrow> 'b run) \<Rightarrow> 'b run" where
  "then_run m f = (case m of None \<Rightarrow> None | Some (Inl e) \<Rightarrow> Some (Inl e) | Some (Inr x) \<Rightarrow> f x)"

text \<open>
  What follows a call is run only when the call has returned, with the value returned.
\<close>

lemma then_run_cong [fundef_cong]:
  "m = m' \<Longrightarrow> (\<And>x. m' = Some (Inr x) \<Longrightarrow> f x = f' x) \<Longrightarrow> then_run m f = then_run m' f'"
  by (auto simp: then_run_def split: option.splits sum.splits)

text \<open>
  The calls of \<^verbatim>\<open>peek\<close>, \<^verbatim>\<open>advance\<close> and \<^verbatim>\<open>match\<close> with \<open>d\<close> frames left. \<^verbatim>\<open>peek\<close> and
  \<^verbatim>\<open>advance\<close> call no method and need one frame. \<^verbatim>\<open>match\<close> calls \<^verbatim>\<open>peek\<close> first, whatever
  the token is, so it needs two frames; its call of \<^verbatim>\<open>advance\<close> comes after \<^verbatim>\<open>peek\<close> has
  returned and takes the frame that \<^verbatim>\<open>peek\<close> has left.
\<close>

definition call_peek :: "nat \<Rightarrow> token list \<Rightarrow> nat \<Rightarrow> token run" where
  "call_peek d ts pos = (if d < 1 then recursion_error else returned (peek ts pos))"

definition call_advance :: "nat \<Rightarrow> nat \<Rightarrow> nat run" where
  "call_advance d pos = (if d < 1 then recursion_error else returned (advance pos))"

definition call_match :: "nat \<Rightarrow> token list \<Rightarrow> nat \<Rightarrow> string \<Rightarrow> string option
    \<Rightarrow> (bool \<times> nat) run" where
  "call_match d ts pos expected_type expected_value =
     (if d < 2 then recursion_error else returned (match ts pos expected_type expected_value))"

subsection \<open>Expressions\<close>

text \<open>
  A rule called with no frame left raises \<^verbatim>\<open>RecursionError\<close>; called with \<open>Suc d\<close> frames
  it runs its body with \<open>d\<close> frames for the calls it makes. A loop runs in the frame of its
  rule: the loops take the frames left for their calls and the number of turns they may
  still make, which starts at the number of tokens plus one. Every turn of every loop
  but the last takes a token, so that number is never used up; this is proved below.
\<close>

function term_lim :: "nat \<Rightarrow> token list \<Rightarrow> nat \<Rightarrow> nat run"
  and expression_lim :: "nat \<Rightarrow> token list \<Rightarrow> nat \<Rightarrow> nat run"
  and expression_loop_lim :: "nat \<Rightarrow> nat \<Rightarrow> token list \<Rightarrow> nat \<Rightarrow> nat run" where
  "term_lim 0 ts pos = recursion_error"
| "term_lim (Suc d) ts pos =
     then_run (call_peek d ts pos) (\<lambda>(tok_type, _).
       if tok_type \<in> {''NUMBER'', ''ID'', ''KEYWORD''} then call_advance d pos
       else
         then_run (call_match d ts pos ''LPAREN'' None) (\<lambda>(m1, p1).
           if m1 then
             then_run (expression_lim d ts p1) (\<lambda>p2.
               then_run (call_match d ts p2 ''RPAREN'' None) (\<lambda>(m2, p3).
                 if \<not> m2 then syntax_error ''Missing closing parenthesis'' else returned p3))
           else
             then_run (call_peek d ts p1) (\<lambda>t.
               syntax_error (''Unexpected token in term: '' @ repr_token t))))"
| "expression_lim 0 ts pos = recursion_error"
| "expression_lim (Suc d) ts pos =
     then_run (term_lim d ts pos) (\<lambda>p. expression_loop_lim d (length ts + 1) ts p)"
| "expression_loop_lim d 0 ts pos = None"
| "expression_loop_lim d (Suc k) ts pos =
     then_run (call_match d ts pos ''OP'' None) (\<lambda>(m, p1).
       if m \<and> snd (ts ! (p1 - 1)) \<in> set binary_ops
       then then_run (term_lim d ts p1) (\<lambda>p2. expression_loop_lim d k ts p2)
       else returned p1)"
  by pat_completeness
     (simp_all only: sum.inject sum.distinct prod.inject nat.inject nat.distinct simp_thms)
termination
  by (relation "inv_image (less_than <*lex*> less_than)
        (\<lambda>x. case x of Inl (d, _) \<Rightarrow> (d, 0) | Inr (Inl (d, _)) \<Rightarrow> (d, 0)
                      | Inr (Inr (d, k, _)) \<Rightarrow> (d, Suc k))")
     (simp_all (no_asm) add: wf_lex_prod)

subsection \<open>Statements without a block\<close>

definition declaration_lim :: "nat \<Rightarrow> token list \<Rightarrow> nat \<Rightarrow> (bool \<times> nat) run" where
  "declaration_lim d' ts pos =
     (case d' of
        0 \<Rightarrow> recursion_error
      | Suc d \<Rightarrow>
          then_run (call_advance d pos) (\<lambda>p0.
            then_run (call_match d ts p0 ''ID'' None) (\<lambda>(m1, p1).
              if m1 then
                then_run (call_match d ts p1 ''OP'' (Some ''='')) (\<lambda>(m2, p2).
                  then_run (if m2 then expression_lim d ts p2 else returned p2) (\<lambda>p3.
                    then_run (call_match d ts p3 ''SEMI'' None) (\<lambda>(m3, p4).
                      if m3 then returned (True, p4) else returned (False, p4))))
              else returned (False, p1))))"

definition assignment_lim :: "nat \<Rightarrow> token list \<Rightarrow> nat \<Rightarrow> (bool \<times> nat) run" where
  "assignment_lim d' ts pos =
     (case d' of
        0 \<Rightarrow> recursion_error
      | Suc d \<Rightarrow>
          then_run (call_advance d pos) (\<lambda>p0.
            then_run (call_match d ts p0 ''OP'' (Some ''='')) (\<lambda>(m1, p1).
              if m1 then
                then_run (expression_lim d ts p1) (\<lambda>p2.
                  then_run (call_match d ts p2 ''SEMI'' None) (\<lambda>(m2, p3).
                    if m2 then returned (True, p3) else returned (False, p3)))
              else returned (False, p1))))"

definition return_statement_lim :: "nat \<Rightarrow> token list \<Rightarrow> nat \<Rightarrow> (bool \<times> nat) run" where
  "return_statement_lim d' ts pos =
     (case d' of
        0 \<Rightarrow> recursion_error
      | Suc d \<Rightarrow>
          then_run (call_advance d pos) (\<lambda>p0.
            then_run (expression_lim d ts p0) (\<lambda>p1.
              then_run (call_match d ts p1 ''SEMI'' None) (\<lambda>(m, p2).
                if \<not> m then syntax_error ''Missing ';' after return''
                else returned (True, p2)))))"

subsection \<open>Statements and blocks\<close>

function statement_lim :: "nat \<Rightarrow> token list \<Rightarrow> nat \<Rightarrow> (bool \<times> nat) run"
  and if_statement_lim :: "nat \<Rightarrow> token list \<Rightarrow> nat \<Rightarrow> (bool \<times> nat) run"
  and while_loop_lim :: "nat \<Rightarrow> token list \<Rightarrow> nat \<Rightarrow> (bool \<times> nat) run"
  and for_loop_lim :: "nat \<Rightarrow> token list \<Rightarrow> nat \<Rightarrow> (bool \<times> nat) run"
  and block_lim :: "nat \<Rightarrow> token list \<Rightarrow> nat \<Rightarrow> (bool \<times> nat) run"
  and block_loop_lim :: "nat \<Rightarrow> nat \<Rightarrow> token list \<Rightarrow> nat \<Rightarrow> (bool \<times> nat) run" where
  "statement_lim 0 ts pos = recursion_error"
| "statement_lim (Suc d) ts pos =
     then_run (call_peek d ts pos) (\<lambda>(tok_type, tok_val).
       if tok_type = ''KEYWORD'' \<and> tok_val \<in> {''int'', ''float'', ''double'', ''bool''}
         then declaration_lim d ts pos
       else if tok_type = ''ID'' then assignment_lim d ts pos
       else if tok_type = ''KEYWORD'' \<and> tok_val = ''if'' then if_statement_lim d ts pos
       else if tok_type = ''KEYWORD'' \<and> tok_val = ''while'' then while_loop_lim d ts pos
       else if tok_type = ''KEYWORD'' \<and> tok_val = ''for'' then for_loop_lim d ts pos
       else if tok_type = ''KEYWORD'' \<and> tok_val = ''return'' then return_statement_lim d ts pos
       else returned (False, pos))"
| "if_statement_lim 0 ts pos = recursion_error"
| "if_statement_lim (Suc d) ts pos =
     then_run (call_advance d pos) (\<lambda>p0.
       then_run (call_match d ts p0 ''LPAREN'' None) (\<lambda>(m1, p1).
         if \<not> m1 then syntax_error ''Missing '(' after if''
         else
           then_run (expression_lim d ts p1) (\<lambda>p2.
             then_run (call_match d ts p2 ''RPAREN'' None) (\<lambda>(m2, p3).
               if \<not> m2 then syntax_error ''Missing ')' after if condition''
               else
                 then_run (block_lim d ts p3) (\<lambda>(b1, p4).
                   if \<not> b1 then syntax_error ''Missing block after if''
                   else
                     then_run (call_match d ts p4 ''KEYWORD'' (Some ''else'')) (\<lambda>(m3, p5).
                       if m3 then
                         then_run (block_lim d ts p5) (\<lambda>(b2, p6).
                           if \<not> b2 then syntax_error ''Missing block after else''
                           else returned (True, p6))
                       else returned (True, p5)))))))"
| "while_loop_lim 0 ts pos = recursion_error"
| "while_loop_lim (Suc d) ts pos =
     then_run (call_advance d pos) (\<lambda>p0.
       then_run (call_match d ts p0 ''LPAREN'' None) (\<lambda>(m1, p1).
         if \<not> m1 then syntax_error ''Missing '(' after while''
         else
           then_run (expression_lim d ts p1) (\<lambda>p2.
             then_run (call_match d ts p2 ''RPAREN'' None) (\<lambda>(m2, p3).
               if \<not> m2 then syntax_error ''Missing ')' after while condition''
               else
                 then_run (block_lim d ts p3) (\<lambda>(b, p4).
                   if \<not> b then syntax_error ''Missing block after while''
                   else returned (True, p4))))))"
| "for_loop_lim 0 ts pos = recursion_error"
| "for_loop_lim (Suc d) ts pos =
     then_run (call_advance d pos) (\<lambda>p0.
       then_run (call_match d ts p0 ''LPAREN'' None) (\<lambda>(m1, p1).
         if \<not> m1 then syntax_error ''Missing '(' after for''
         else
           then_run (statement_lim d ts p1) (\<lambda>(_, p2).
             then_run (expression_lim d ts p2) (\<lambda>p3.
               then_run (call_match d ts p3 ''SEMI'' None) (\<lambda>(_, p4).
                 then_run (assignment_lim d ts p4) (\<lambda>(_, p5).
                   then_run (call_match d ts p5 ''RPAREN'' None) (\<lambda>(m2, p6).
                     if \<not> m2 then syntax_error ''Missing ')' after for loop''
                     else
                       then_run (block_lim d ts p6) (\<lambda>(b, p7).
                         if \<not> b then syntax_error ''Missing block after for''
                         else returned (True, p7)))))))))"
| "block_lim 0 ts pos = recursion_error"
| "block_lim (Suc d) ts pos =
     then_run (call_match d ts pos ''LBRACE'' None) (\<lambda>(m, p).
       if m then block_loop_lim d (length ts + 1) ts p else returned (False, p))"
| "block_loop_lim d 0 ts pos = None"
| "block_loop_lim d (Suc k) ts pos =
     then_run (call_match d ts pos ''RBRACE'' None) (\<lambda>(m, p).
       if \<not> m then
         then_run (statement_lim d ts p) (\<lambda>(s, p').
           if \<not> s then
             then_run (call_peek d ts p') (\<lambda>t.
               syntax_error (''Invalid statement in block: '' @ repr_token t))
           else block_loop_lim d k ts p')
       else returned (True, p))"
  by pat_completeness
     (simp_all only: sum.inject sum.distinct prod.inject nat.inject nat.distinct simp_thms)
termination
  by (relation "inv_image (less_than <*lex*> less_than) (\<lambda>x. case x of
         Inl (Inl (d, _)) \<Rightarrow> (d, 0) | Inl (Inr (Inl (d, _))) \<Rightarrow> (d, 0)
       | Inl (Inr (Inr (d, _))) \<Rightarrow> (d, 0) | Inr (Inl (d, _)) \<Rightarrow> (d, 0)
       | Inr (Inr (Inl (d, _))) \<Rightarrow> (d, 0) | Inr (Inr (Inr (d, k, _))) \<Rightarrow> (d, Suc k))")
     (simp_all (no_asm) add: wf_lex_prod)

subsection \<open>\<^verbatim>\<open>Parser.parse\<close>\<close>

definition main_header_lim :: "nat \<Rightarrow> token list \<Rightarrow> nat \<Rightarrow> (bool \<times> nat) run" where
  "main_header_lim d ts pos =
     then_run (call_match d ts pos ''KEYWORD'' (Some ''int'')) (\<lambda>(m1, p1).
       if \<not> m1 then returned (False, p1)
       else
         then_run (call_match d ts p1 ''KEYWORD'' (Some ''main'')) (\<lambda>(m2, p2).
           if \<not> m2 then returned (False, p2)
           else
             then_run (call_match d ts p2 ''LPAREN'' None) (\<lambda>(m3, p3).
               if \<not> m3 then returned (False, p3)
               else call_match d ts p3 ''RPAREN'' None)))"

text \<open>
  The loop over the top-level statements. The message of its \<^verbatim>\<open>SyntaxError\<close> is formatted
  with a call of \<^verbatim>\<open>peek\<close>.
\<close>

function parse_loop_lim :: "nat \<Rightarrow> nat \<Rightarrow> token list \<Rightarrow> nat \<Rightarrow> nat run" where
  "parse_loop_lim d 0 ts pos = None"
| "parse_loop_lim d (Suc k) ts pos =
     (if pos < length ts then
        then_run (statement_lim d ts pos) (\<lambda>(s, p).
          if \<not> s then
            then_run (call_peek d ts p) (\<lambda>t.
              syntax_error (''Unexpected token: '' @ repr_token t))
          else parse_loop_lim d k ts p)
      else returned pos)"
  by pat_completeness
     (simp_all only: sum.inject sum.distinct prod.inject nat.inject nat.distinct simp_thms)
termination
  by (relation "measure (\<lambda>(d, k, _). k)") (simp_all (no_asm))

text \<open>
  The body of the \<^verbatim>\<open>try\<close>: the optional main function, which gives the position where
  the loop starts, then the loop.
\<close>

definition main_function_lim :: "nat \<Rightarrow> token list \<Rightarrow> nat run" where
  "main_function_lim d ts =
     then_run (main_header_lim d ts 0) (\<lambda>(m, p).
       if m then
         then_run (block_lim d ts p) (\<lambda>(b, p').
           if \<not> b then syntax_error ''Missing block after main()'' else returned p')
       else returned p)"

definition parse_body_lim :: "nat \<Rightarrow> token list \<Rightarrow> nat run" where
  "parse_body_lim d ts =
     then_run (main_function_lim d ts) (\<lambda>p. parse_loop_lim d (length ts + 1) ts p)"

text \<open>
  A call of \<^verbatim>\<open>parse\<close> with \<open>d\<close> frames left ends in one of two ways: it prints its line and
  returns, or a \<^verbatim>\<open>RecursionError\<close> raised below it, which its \<^verbatim>\<open>except SyntaxError\<close> does not
  handle, goes on to its caller.
\<close>

datatype ending = Printed outcome | Unhandled_RecursionError

definition parse_lim :: "nat \<Rightarrow> token list \<Rightarrow> ending option" where
  "parse_lim d' ts =
     (case d' of
        0 \<Rightarrow> Some Unhandled_RecursionError
      | Suc d \<Rightarrow>
          (case parse_body_lim d ts of
             None \<Rightarrow> None
           | Some (Inl (Syntax_Error msg)) \<Rightarrow> Some (Printed (Rejected msg))
           | Some (Inl Recursion_Error) \<Rightarrow> Some Unhandled_RecursionError
           | Some (Inr p) \<Rightarrow> Some (Printed Accepted)))"

text \<open>
  The turns of the loop over the top-level statements. A turn at \<open>p\<close> goes on at \<open>p'\<close>
  when the statement at \<open>p\<close> returns \<^verbatim>\<open>True\<close> and leaves the cursor at \<open>p'\<close>. A turn at \<open>q\<close>
  ends the loop with the message \<open>msg\<close> when the statement at \<open>q\<close> raises a
  \<^verbatim>\<open>SyntaxError\<close> with that message, or returns \<^verbatim>\<open>False\<close> with the cursor at a token of
  which \<open>msg\<close> is the report.
\<close>

definition statement_ok :: "nat \<Rightarrow> token list \<Rightarrow> nat \<Rightarrow> nat \<Rightarrow> bool" where
  "statement_ok d ts p p' = (p < length ts \<and> statement_lim d ts p = Some (Inr (True, p')))"

definition statement_fails :: "nat \<Rightarrow> token list \<Rightarrow> nat \<Rightarrow> string \<Rightarrow> bool" where
  "statement_fails d ts q msg =
     (q < length ts \<and>
      (case statement_lim d ts q of
         None \<Rightarrow> False
       | Some (Inl Recursion_Error) \<Rightarrow> False
       | Some (Inl (Syntax_Error m)) \<Rightarrow> msg = m
       | Some (Inr (s, p')) \<Rightarrow> \<not> s \<and> msg = ''Unexpected token: '' @ repr_token (peek ts p')))"

text \<open>
  A run settles when it returns or raises, that is, when its loops end within the turns
  allowed to them. The flag says that the frames left are enough for it, and then the run
  must not raise \<^verbatim>\<open>RecursionError\<close> either.
\<close>

definition settles :: "bool \<Rightarrow> 'a run \<Rightarrow> bool" where
  "settles enough x = (\<exists>r. x = Some r \<and> (enough \<longrightarrow> r \<noteq> Inl Recursion_Error))"

text \<open>
  The tokens of \<^verbatim>\<open>x =\<close> followed by \<open>m\<close> opening parentheses.
\<close>

definition nested :: "nat \<Rightarrow> token list" where
  "nested m = [(''ID'', ''x''), (''OP'', ''='')] @ replicate m (''LPAREN'', ''('')"

section \<open>Facts about the scanner\<close>

lemma first_match_SomeD:
  "first_match spec s = Some (k, v) \<Longrightarrow> \<exists>re. (k, re) \<in> set spec \<and> re s = Some v"
  by (induction spec) (auto split: option.splits)

lemma token_regex_SomeD:
  "token_regex s = Some (k, v) \<Longrightarrow> \<exists>re. (k, re) \<in> set token_specification \<and> re s = Some v"
  unfolding token_regex_def by (rule first_match_SomeD)

lemma keyword_first_char:
  "v \<in> set keyword_set \<Longrightarrow> v \<noteq> [] \<and> is_id_start (hd v)"
  unfolding keyword_set_def by (auto simp: is_id_start_def)

lemma id_start_not_digit: "is_id_start c \<Longrightarrow> \<not> is_digit c"
  by (auto simp: is_id_start_def is_digit_def Let_def)

lemma id_start_not_blank: "is_id_start c \<Longrightarrow> \<not> is_blank c"
  by (auto simp: is_id_start_def is_blank_def Let_def)

lemma re_number_hd: "re_number s = Some v \<Longrightarrow> v \<noteq> [] \<and> is_digit (hd v)"
proof -
  assume a: "re_number s = Some v"
  then obtain t where v: "v = takeWhile is_digit s @ t" and ne: "takeWhile is_digit s \<noteq> []"
    by (auto simp: re_number_def Let_def split: if_splits list.splits)
  from ne have "is_digit (hd (takeWhile is_digit s))"
    by (metis hd_in_set set_takeWhileD)
  then show ?thesis using v ne by simp
qed

lemma re_skip_hd: "re_skip s = Some v \<Longrightarrow> v \<noteq> [] \<and> is_blank (hd v)"
proof -
  assume a: "re_skip s = Some v"
  then have v: "v = takeWhile is_blank s" and ne: "v \<noteq> []"
    by (auto simp: re_skip_def Let_def split: if_splits)
  then show ?thesis by (metis hd_in_set set_takeWhileD)
qed

lemma re_number_not_keyword: "re_number s = Some v \<Longrightarrow> v \<notin> set keyword_set"
  using re_number_hd keyword_first_char id_start_not_digit by blast

lemma re_skip_not_keyword: "re_skip s = Some v \<Longrightarrow> v \<notin> set keyword_set"
  using re_skip_hd keyword_first_char id_start_not_blank by blast

lemma re_op_hd: "re_op s = Some v \<Longrightarrow> v \<noteq> [] \<and> hd v \<in> set ''=!<>&|+-*/%''"
proof -
  assume a: "re_op s = Some v"
  show ?thesis
  proof (cases "find (\<lambda>op. take (length op) s = op) two_char_ops")
    case None
    then show ?thesis using a
      by (auto simp: re_op_def one_char_ops_def split: list.splits if_splits)
  next
    case (Some op)
    then have "op \<in> set two_char_ops"
      by (auto simp: find_Some_iff)
    moreover have "v = op" using a Some by (simp add: re_op_def)
    ultimately show ?thesis by (auto simp: two_char_ops_def)
  qed
qed

lemma id_start_not_op: "is_id_start c \<Longrightarrow> c \<notin> set ''=!<>&|+-*/%''"
  by (auto simp: is_id_start_def Let_def)

lemma re_op_not_keyword: "re_op s = Some v \<Longrightarrow> v \<notin> set keyword_set"
  using re_op_hd keyword_first_char id_start_not_op by blast

lemma re_char_hd: "re_char x s = Some v \<Longrightarrow> v = [x]"
  by (auto simp: re_char_def split: list.splits if_splits)

lemma re_char_not_keyword: "re_char x s = Some v \<Longrightarrow> v \<notin> set keyword_set"
  by (auto simp: keyword_set_def dest!: re_char_hd)

lemma token_regex_keyword:
  assumes "token_regex s = Some (k, v)" and "v \<in> set keyword_set"
  shows "k = ''ID''"
proof -
  from assms(1) obtain re where re: "(k, re) \<in> set token_specification" "re s = Some v"
    using token_regex_SomeD by blast
  from re(1) consider "k = ''ID''" | "re = re_number" | "re = re_op" | "re = re_skip"
    | x where "re = re_char x"
    by (auto simp: token_specification_def)
  then show ?thesis
  proof cases
    case 1
    then show ?thesis .
  next
    case 2
    then show ?thesis using re(2) assms(2) re_number_not_keyword by blast
  next
    case 3
    then show ?thesis using re(2) assms(2) re_op_not_keyword by blast
  next
    case 4
    then show ?thesis using re(2) assms(2) re_skip_not_keyword by blast
  next
    case 5
    then show ?thesis using re(2) assms(2) re_char_not_keyword by blast
  qed
qed

lemma scan_keyword:
  "(k, v) \<in> set (scan s) \<Longrightarrow> v \<in> set keyword_set \<Longrightarrow> k = ''KEYWORD''"
proof (induction s rule: scan.induct)
  case 1
  then show ?case by simp
next
  case (2 c cs)
  show ?case
  proof (cases "token_regex (c # cs)")
    case None
    then show ?thesis using 2 by simp
  next
    case (Some a)
    obtain kind val where a: "a = (kind, val)" by (cases a)
    show ?thesis
      using 2 Some a token_regex_keyword [of "c # cs" kind val]
      by (auto split: if_splits)
  qed
qed

lemma re_number_None: "\<not> is_digit c \<Longrightarrow> re_number (c # cs) = None"
  by (simp add: re_number_def)

lemma re_id_None: "\<not> is_id_start c \<Longrightarrow> re_id (c # cs) = None"
  by (simp add: re_id_def)

lemma re_char_None: "c \<noteq> x \<Longrightarrow> re_char x (c # cs) = None"
  by (simp add: re_char_def)

lemma re_op_None: "c \<notin> set ''=!<>&|+-*/%'' \<Longrightarrow> re_op (c # cs) = None"
  by (simp add: re_op_def two_char_ops_def one_char_ops_def)

lemma re_skip_None: "\<not> is_blank c \<Longrightarrow> re_skip (c # cs) = None"
  by (simp add: re_skip_def)

lemma re_op_two_char: "op \<in> set two_char_ops \<Longrightarrow> re_op (op @ rest) = Some op"
  unfolding two_char_ops_def re_op_def by auto

lemma two_char_op_first:
  "op \<in> set two_char_ops \<Longrightarrow> length op = 2 \<and> \<not> is_digit (hd op) \<and> \<not> is_id_start (hd op)"
  unfolding two_char_ops_def by (auto simp: is_digit_def is_id_start_def)

lemma length_two: "length xs = 2 \<Longrightarrow> \<exists>c d. xs = [c, d]"
  by (cases xs; cases "tl xs") auto

lemma token_regex_two_char_op:
  assumes "op \<in> set two_char_ops"
  shows "token_regex (op @ rest) = Some (''OP'', op)"
proof -
  from assms obtain c d where op: "op = [c, d]" "\<not> is_digit c" "\<not> is_id_start c"
    using two_char_op_first [of op] length_two [of op] by auto
  have "re_number (op @ rest) = None" "re_id (op @ rest) = None"
    using op by (simp_all add: re_number_None re_id_None)
  moreover have "re_op (op @ rest) = Some op" using assms by (rule re_op_two_char)
  ultimately show ?thesis
    by (simp add: token_regex_def token_specification_def)
qed

lemma scan_two_char_op:
  assumes "op \<in> set two_char_ops"
  shows "scan (op @ rest) = (''OP'', op) # scan rest"
proof -
  from assms obtain c d where op: "op = [c, d]"
    using two_char_op_first [of op] length_two [of op] by auto
  have "token_regex (c # d # rest) = Some (''OP'', op)"
    using token_regex_two_char_op [OF assms, of rest] by (simp add: op)
  then show ?thesis by (simp add: op)
qed

lemma token_regex_newline:
  "token_regex (CHR 0x0A # cs) = Some (''NEWLINE'', [CHR 0x0A])"
proof -
  have "re_number (CHR 0x0A # cs) = None" "re_id (CHR 0x0A # cs) = None"
    "re_op (CHR 0x0A # cs) = None" "re_skip (CHR 0x0A # cs) = None"
    by (simp_all add: re_number_None re_id_None re_op_None re_skip_None
          is_digit_def is_id_start_def is_blank_def)
  then show ?thesis
    by (simp add: token_regex_def token_specification_def re_char_def)
qed

lemma token_regex_blank:
  assumes "is_blank c"
  shows "token_regex (c # cs) = Some (''SKIP'', c # takeWhile is_blank cs)"
proof -
  have "re_number (c # cs) = None" "re_id (c # cs) = None" "re_op (c # cs) = None"
    using assms
    by (auto simp: re_number_None re_id_None re_op_None is_digit_def is_id_start_def
          is_blank_def)
  moreover have "re_char x (c # cs) = None" if "x \<in> set '';(){}''" for x
    using that assms by (auto simp: re_char_def is_blank_def)
  moreover have "re_skip (c # cs) = Some (c # takeWhile is_blank cs)"
    using assms by (simp add: re_skip_def)
  ultimately show ?thesis
    by (simp add: token_regex_def token_specification_def)
qed

lemma scan_whitespace:
  "set s \<subseteq> {CHR '' '', CHR 0x09, CHR 0x0A} \<Longrightarrow> scan s = []"
proof (induction s rule: length_induct)
  case (1 s)
  show ?case
  proof (cases s)
    case Nil
    then show ?thesis by simp
  next
    case (Cons c cs)
    show ?thesis
    proof (cases "c = CHR 0x0A")
      case True
      have "scan cs = []" using 1 Cons by simp
      then show ?thesis using True Cons token_regex_newline [of cs] by simp
    next
      case False
      then have b: "is_blank c" using 1(2) Cons by (auto simp: is_blank_def)
      have sub: "set (dropWhile is_blank cs) \<subseteq> {CHR '' '', CHR 0x09, CHR 0x0A}"
        using 1(2) Cons set_dropWhileD [of _ is_blank cs] by auto
      have len: "length (dropWhile is_blank cs) < length s"
        using Cons length_dropWhile_le [of is_blank cs] by simp
      have "scan (dropWhile is_blank cs) = []" using 1(1) sub len by blast
      moreover have "drop (length (takeWhile is_blank cs)) cs = dropWhile is_blank cs"
        by (metis append_eq_conv_conj takeWhile_dropWhile_id)
      ultimately show ?thesis using Cons token_regex_blank [OF b, of cs] by simp
    qed
  qed
qed

section \<open>Facts about the parser\<close>

lemma match_result:
  assumes "match ts pos et ev = (m, p)" and "et \<noteq> ''EOF''"
  shows "(m \<and> p = pos + 1 \<and> pos < length ts) \<or> (\<not> m \<and> p = pos)"
  using assms by (auto simp: match_def peek_def advance_def split: prod.splits if_splits)

lemma match_True:
  "match ts pos et ev = (True, p) \<Longrightarrow> et \<noteq> ''EOF'' \<Longrightarrow> p = pos + 1 \<and> pos < length ts"
  using match_result by blast

lemma match_False: "match ts pos et ev = (False, p) \<Longrightarrow> p = pos"
  by (auto simp: match_def split: prod.splits if_splits)

lemma and_then_Some:
  "and_then m f = Some r \<Longrightarrow>
     (\<exists>e. m = Some (Inl e) \<and> r = Inl e) \<or> (\<exists>x. m = Some (Inr x) \<and> f x = Some r)"
  by (auto simp: and_then_def split: option.splits sum.splits)

lemma and_then_Inr:
  "and_then m f = Some (Inr y) \<Longrightarrow> \<exists>x. m = Some (Inr x) \<and> f x = Some (Inr y)"
  by (auto simp: and_then_def split: option.splits sum.splits)

lemma peek_kind_in_range:
  "fst (peek ts pos) \<noteq> ''EOF'' \<Longrightarrow> pos < length ts"
  by (auto simp: peek_def split: if_splits)

lemma expression_progress:
  "(\<forall>pos p. term_rule n ts pos = Some (Inr p) \<longrightarrow> pos < p \<and> pos < length ts)
   \<and> (\<forall>pos p. expression n ts pos = Some (Inr p) \<longrightarrow> pos < p \<and> pos < length ts)
   \<and> (\<forall>pos p. expression_loop n ts pos = Some (Inr p) \<longrightarrow> pos \<le> p)"
proof (induction n)
  case 0
  show ?case by simp
next
  case (Suc n)
  have t: "pos < p \<and> pos < length ts" if "term_rule (Suc n) ts pos = Some (Inr p)" for pos p
  proof (cases "fst (peek ts pos) \<in> {''NUMBER'', ''ID'', ''KEYWORD''}")
    case True
    then have "pos < length ts" by (auto simp: peek_def split: if_splits)
    then show ?thesis using that True by (simp add: ok_def advance_def)
  next
    case False
    obtain m1 p1 where m: "match ts pos ''LPAREN'' None = (m1, p1)" by force
    show ?thesis
    proof (cases m1)
      case True
      then have p1: "p1 = pos + 1" "pos < length ts"
        using m match_True [of ts pos "''LPAREN''" None p1] by simp_all
      from that False m True obtain p2 where
        e: "expression n ts p1 = Some (Inr p2)"
        and r: "(let (m2, p3) = match ts p2 ''RPAREN'' None
                 in if \<not> m2 then raise ''Missing closing parenthesis'' else ok p3) = Some (Inr p)"
        by (auto dest!: and_then_Inr)
      from e Suc have "p1 < p2" by blast
      moreover from r have "p2 \<le> p"
        by (auto simp: raise_def ok_def split: prod.splits if_splits dest!: match_True)
      ultimately show ?thesis using p1 by simp
    next
      case False
      then show ?thesis using that \<open>fst (peek ts pos) \<notin> _\<close> m by (simp add: raise_def)
    qed
  qed
  have e: "pos < p \<and> pos < length ts" if "expression (Suc n) ts pos = Some (Inr p)" for pos p
  proof -
    from that obtain q where q: "term_rule n ts pos = Some (Inr q)"
      and l: "expression_loop n ts q = Some (Inr p)"
      by (auto dest!: and_then_Inr)
    from q Suc have "pos < q \<and> pos < length ts" by blast
    moreover from l Suc have "q \<le> p" by blast
    ultimately show ?thesis by simp
  qed
  have l: "pos \<le> p" if "expression_loop (Suc n) ts pos = Some (Inr p)" for pos p
  proof -
    obtain m p1 where m: "match ts pos ''OP'' None = (m, p1)" by force
    have p1: "pos \<le> p1" using match_result [OF m] by auto
    show ?thesis
    proof (cases "m \<and> snd (ts ! (p1 - 1)) \<in> set binary_ops")
      case True
      with that m obtain p2 where q: "term_rule n ts p1 = Some (Inr p2)"
        and l: "expression_loop n ts p2 = Some (Inr p)"
        by (auto dest!: and_then_Inr)
      from q Suc have "p1 < p2" by blast
      moreover from l Suc have "p2 \<le> p" by blast
      ultimately show ?thesis using p1 by simp
    next
      case False
      with that m have "p = p1" by (auto simp: ok_def)
      then show ?thesis using p1 by simp
    qed
  qed
  show ?case using t e l by blast
qed

lemma and_then_not_None:
  assumes "m \<noteq> None" and "\<And>x. m = Some (Inr x) \<Longrightarrow> f x \<noteq> None"
  shows "and_then m f \<noteq> None"
  using assms by (auto simp: and_then_def split: option.splits sum.splits)

lemma expression_fuel:
  "(\<forall>pos. 2 * (length ts - pos) + 1 \<le> n \<longrightarrow> term_rule n ts pos \<noteq> None)
   \<and> (\<forall>pos. 2 * (length ts - pos) + 2 \<le> n \<longrightarrow> expression n ts pos \<noteq> None)
   \<and> (\<forall>pos. 2 * (length ts - pos) + 1 \<le> n \<longrightarrow> expression_loop n ts pos \<noteq> None)"
proof (induction n)
  case 0
  show ?case by simp
next
  case (Suc n)
  have t: "term_rule (Suc n) ts pos \<noteq> None" if b: "2 * (length ts - pos) + 1 \<le> Suc n" for pos
  proof (cases "fst (peek ts pos) \<in> {''NUMBER'', ''ID'', ''KEYWORD''}")
    case True
    then show ?thesis by (simp add: ok_def)
  next
    case False
    obtain m1 p1 where m: "match ts pos ''LPAREN'' None = (m1, p1)" by force
    show ?thesis
    proof (cases m1)
      case True
      then have p1: "p1 = pos + 1" "pos < length ts"
        using m match_True [of ts pos "''LPAREN''" None p1] by simp_all
      then have "2 * (length ts - p1) + 2 \<le> n" using b by arith
      then have "expression n ts p1 \<noteq> None" using Suc by blast
      then have "and_then (expression n ts p1) (\<lambda>p2.
                let (m2, p3) = match ts p2 ''RPAREN'' None
                in if \<not> m2 then raise ''Missing closing parenthesis'' else ok p3) \<noteq> None"
        by (rule and_then_not_None) (simp add: raise_def ok_def split: prod.splits)
      then show ?thesis using False m True by simp
    next
      case F: False
      then show ?thesis using False m by (simp add: raise_def)
    qed
  qed
  have e: "expression (Suc n) ts pos \<noteq> None" if b: "2 * (length ts - pos) + 2 \<le> Suc n" for pos
  proof -
    have "term_rule n ts pos \<noteq> None" using b Suc by simp
    moreover have "expression_loop n ts q \<noteq> None" if "term_rule n ts pos = Some (Inr q)" for q
    proof -
      from that have "pos < q \<and> pos < length ts" using expression_progress by blast
      then have "2 * (length ts - q) + 1 \<le> n" using b by arith
      then show ?thesis using Suc by blast
    qed
    ultimately show ?thesis by (simp add: and_then_not_None)
  qed
  have l: "expression_loop (Suc n) ts pos \<noteq> None" if b: "2 * (length ts - pos) + 1 \<le> Suc n" for pos
  proof -
    obtain m p1 where m: "match ts pos ''OP'' None = (m, p1)" by force
    show ?thesis
    proof (cases "m \<and> snd (ts ! (p1 - 1)) \<in> set binary_ops")
      case True
      then have p1: "p1 = pos + 1" "pos < length ts"
        using m match_True [of ts pos "''OP''" None p1] by simp_all
      then have "2 * (length ts - p1) + 1 \<le> n" using b by arith
      then have "term_rule n ts p1 \<noteq> None" using Suc by blast
      moreover have "expression_loop n ts q \<noteq> None" if "term_rule n ts p1 = Some (Inr q)" for q
      proof -
        from that have "p1 < q" using expression_progress by blast
        then have "2 * (length ts - q) + 1 \<le> n" using b p1 by arith
        then show ?thesis using Suc by blast
      qed
      ultimately have "and_then (term_rule n ts p1) (\<lambda>p2. expression_loop n ts p2) \<noteq> None"
        by (simp add: and_then_not_None)
      then show ?thesis using m True by simp
    next
      case False
      then show ?thesis using m by (auto simp: ok_def)
    qed
  qed
  show ?case using t e l by blast
qed

lemmas expression_simps = term_rule.simps expression.simps expression_loop.simps

lemma and_then_mono:
  assumes "and_then m f = Some r"
    and "\<And>x. m = Some x \<Longrightarrow> m' = Some x"
    and "\<And>x. m = Some (Inr x) \<Longrightarrow> f x = Some r \<Longrightarrow> f' x = Some r"
  shows "and_then m' f' = Some r"
  using assms by (auto simp: and_then_def split: option.splits sum.splits)

lemma expression_mono_Suc:
  "(\<forall>pos r. term_rule n ts pos = Some r \<longrightarrow> term_rule (Suc n) ts pos = Some r)
   \<and> (\<forall>pos r. expression n ts pos = Some r \<longrightarrow> expression (Suc n) ts pos = Some r)
   \<and> (\<forall>pos r. expression_loop n ts pos = Some r \<longrightarrow> expression_loop (Suc n) ts pos = Some r)"
proof (induction n)
  case 0
  show ?case by simp
next
  case (Suc n)
  have t: "term_rule (Suc (Suc n)) ts pos = Some r" if a: "term_rule (Suc n) ts pos = Some r" for pos r
  proof (cases "fst (peek ts pos) \<in> {''NUMBER'', ''ID'', ''KEYWORD''}")
    case True
    with a have "ok (advance pos) = Some r" by simp
    then show ?thesis using True by (subst term_rule.simps) (simp del: expression_simps)
  next
    case False
    obtain m1 p1 where m: "match ts pos ''LPAREN'' None = (m1, p1)" by force
    show ?thesis
    proof (cases m1)
      case True
      let ?k = "\<lambda>p2. let (m2, p3) = match ts p2 ''RPAREN'' None
                in if \<not> m2 then raise ''Missing closing parenthesis'' else ok p3"
      from a False m True have "and_then (expression n ts p1) ?k = Some r" by simp
      then have "and_then (expression (Suc n) ts p1) ?k = Some r"
        by (rule and_then_mono) (use Suc in blast)+
      then show ?thesis using False m True
        by (subst term_rule.simps) (simp del: expression_simps)
    next
      case F: False
      with a False m have "raise (''Unexpected token in term: '' @ repr_token (peek ts p1)) = Some r"
        by simp
      then show ?thesis using F False m
        by (subst term_rule.simps) (simp del: expression_simps)
    qed
  qed
  have e: "expression (Suc (Suc n)) ts pos = Some r" if a: "expression (Suc n) ts pos = Some r" for pos r
  proof -
    from a have "and_then (term_rule n ts pos) (\<lambda>p. expression_loop n ts p) = Some r" by simp
    then have "and_then (term_rule (Suc n) ts pos) (\<lambda>p. expression_loop (Suc n) ts p) = Some r"
      by (rule and_then_mono) (use Suc in blast)+
    then show ?thesis by (subst expression.simps)
  qed
  have l: "expression_loop (Suc (Suc n)) ts pos = Some r"
    if a: "expression_loop (Suc n) ts pos = Some r" for pos r
  proof -
    obtain m p1 where m: "match ts pos ''OP'' None = (m, p1)" by force
    show ?thesis
    proof (cases "m \<and> snd (ts ! (p1 - 1)) \<in> set binary_ops")
      case True
      with a m have "and_then (term_rule n ts p1) (\<lambda>p2. expression_loop n ts p2) = Some r"
        by simp
      then have "and_then (term_rule (Suc n) ts p1) (\<lambda>p2. expression_loop (Suc n) ts p2) = Some r"
        by (rule and_then_mono) (use Suc in blast)+
      then show ?thesis using m True
        by (subst expression_loop.simps) (simp del: expression_simps)
    next
      case False
      with a m have "ok p1 = Some r" by auto
      then show ?thesis using False m
        by (subst expression_loop.simps) (auto simp del: expression_simps)
    qed
  qed
  show ?case using t e l by blast
qed

lemmas statement_simps =
  statement.simps if_statement.simps while_loop.simps for_loop.simps block.simps
  block_loop.simps

lemma match_le: "match ts pos et ev = (m, p) \<Longrightarrow> pos \<le> p"
  by (auto simp: match_def advance_def split: prod.splits if_splits)

lemma declaration_progress:
  "declaration_rule n ts pos = Some (Inr (b, p)) \<Longrightarrow> pos < p"
  unfolding declaration_rule_def Let_def advance_def
  by (auto simp: ok_def split: prod.splits if_splits
      dest!: and_then_Inr match_le expression_progress [THEN conjunct2, THEN conjunct1, rule_format])

lemma assignment_progress:
  "assignment n ts pos = Some (Inr (b, p)) \<Longrightarrow> pos < p"
  unfolding assignment_def Let_def advance_def
  by (auto simp: ok_def split: prod.splits if_splits
      dest!: and_then_Inr match_le expression_progress [THEN conjunct2, THEN conjunct1, rule_format])

lemma return_progress:
  "return_statement n ts pos = Some (Inr (b, p)) \<Longrightarrow> pos < p"
  unfolding return_statement_def Let_def advance_def
  by (auto simp: ok_def raise_def split: prod.splits if_splits
      dest!: and_then_Inr match_le expression_progress [THEN conjunct2, THEN conjunct1, rule_format])

lemma expression_lt: "expression n ts pos = Some (Inr p) \<Longrightarrow> pos < p"
  using expression_progress by blast

lemma peek_in_range: "fst (peek ts pos) = k \<Longrightarrow> k \<noteq> ''EOF'' \<Longrightarrow> pos < length ts"
  by (auto simp: peek_def split: if_splits)

lemma statement_progress:
  "(\<forall>pos b p. statement n ts pos = Some (Inr (b, p)) \<longrightarrow>
      pos \<le> p \<and> (b \<longrightarrow> pos < p \<and> pos < length ts))
   \<and> (\<forall>pos b p. if_statement n ts pos = Some (Inr (b, p)) \<longrightarrow> pos < p)
   \<and> (\<forall>pos b p. while_loop n ts pos = Some (Inr (b, p)) \<longrightarrow> pos < p)
   \<and> (\<forall>pos b p. for_loop n ts pos = Some (Inr (b, p)) \<longrightarrow> pos < p)
   \<and> (\<forall>pos b p. block n ts pos = Some (Inr (b, p)) \<longrightarrow> pos \<le> p)
   \<and> (\<forall>pos b p. block_loop n ts pos = Some (Inr (b, p)) \<longrightarrow> pos \<le> p)"
proof (induction n)
  case 0
  show ?case by simp
next
  case (Suc n)
  have ih_s: "pos \<le> p" if "statement n ts pos = Some (Inr (b, p))" for pos b p
    using that Suc by blast
  have ih_s': "pos < p" if "statement n ts pos = Some (Inr (True, p))" for pos p
    using that Suc by blast
  have ih_b: "pos \<le> p" if "block n ts pos = Some (Inr (b, p))" for pos b p
    using that Suc by blast
  have ih_l: "pos \<le> p" if "block_loop n ts pos = Some (Inr (b, p))" for pos b p
    using that Suc by blast
  have ih_i: "pos < p" if "if_statement n ts pos = Some (Inr (b, p))" for pos b p
    using that Suc by blast
  have ih_w: "pos < p" if "while_loop n ts pos = Some (Inr (b, p))" for pos b p
    using that Suc by blast
  have ih_f: "pos < p" if "for_loop n ts pos = Some (Inr (b, p))" for pos b p
    using that Suc by blast
  have s: "pos \<le> p \<and> (b \<longrightarrow> pos < p \<and> pos < length ts)"
    if a: "statement (Suc n) ts pos = Some (Inr (b, p))" for pos b p
  proof -
    obtain k v where pk: "peek ts pos = (k, v)" by force
    show ?thesis
    proof (cases "k = ''KEYWORD'' \<or> k = ''ID''")
      case True
      then have r: "pos < length ts" using pk peek_in_range [of ts pos k] by auto
      have "pos \<le> p \<and> (b \<longrightarrow> pos < p)"
        using a pk True
        by (auto simp: ok_def split: if_splits
            dest: declaration_progress assignment_progress return_progress ih_i ih_w ih_f)
      then show ?thesis using r by simp
    next
      case False
      then show ?thesis using a pk by (auto simp: ok_def)
    qed
  qed
  have i: "pos < p" if a: "if_statement (Suc n) ts pos = Some (Inr (b, p))" for pos b p
    using a
    by (auto simp: Let_def advance_def ok_def raise_def split: prod.splits if_splits
        dest!: and_then_Inr match_le expression_lt ih_b)
  have w: "pos < p" if a: "while_loop (Suc n) ts pos = Some (Inr (b, p))" for pos b p
    using a
    by (auto simp: Let_def advance_def ok_def raise_def split: prod.splits if_splits
        dest!: and_then_Inr match_le expression_lt ih_b)
  have f: "pos < p" if a: "for_loop (Suc n) ts pos = Some (Inr (b, p))" for pos b p
    using a
    by (auto simp: Let_def advance_def ok_def raise_def split: prod.splits if_splits
        dest!: and_then_Inr match_le expression_lt ih_b ih_s assignment_progress)
  have bl: "pos \<le> p" if a: "block (Suc n) ts pos = Some (Inr (b, p))" for pos b p
    using a
    by (auto simp: ok_def split: prod.splits if_splits dest!: match_le ih_l)
  have l: "pos \<le> p" if a: "block_loop (Suc n) ts pos = Some (Inr (b, p))" for pos b p
    using a
    by (auto simp: ok_def raise_def split: prod.splits if_splits
        dest!: and_then_Inr match_le ih_l ih_s)
  show ?case using s i w f bl l by blast
qed

lemma and_then_returns:
  assumes "\<exists>y. m = Some y" and "\<And>x. m = Some (Inr x) \<Longrightarrow> \<exists>y. f x = Some y"
  shows "\<exists>y. and_then m f = Some y"
  using assms by (auto simp: and_then_def split: option.splits sum.splits)

lemma expression_enough:
  "2 * length ts + 2 \<le> n + 2 * pos \<Longrightarrow> 2 \<le> n \<Longrightarrow> \<exists>y. expression n ts pos = Some y"
proof -
  assume "2 * length ts + 2 \<le> n + 2 * pos" "2 \<le> n"
  then have "2 * (length ts - pos) + 2 \<le> n" by arith
  then show ?thesis using expression_fuel by blast
qed

lemma match_step:
  "match ts pos et ev = (True, pos + 1) \<or> match ts pos et ev = (False, pos)"
  by (auto simp: match_def advance_def split: prod.splits)

lemma declaration_enough:
  assumes "2 * length ts + 2 \<le> n + 2 * pos" and "2 \<le> n"
  shows "\<exists>y. declaration_rule n ts pos = Some y"
proof -
  have e: "\<exists>y. expression n ts p = Some y" if "pos \<le> p" for p
    using that assms by (intro expression_enough) simp_all
  show ?thesis
    unfolding declaration_rule_def Let_def advance_def
    using match_step [of ts "pos + 1" "''ID''" None]
      match_step [of ts "pos + 2" "''OP''" "Some ''=''"]
    by (auto simp: ok_def split: prod.splits intro!: and_then_returns e)
qed

lemma assignment_enough:
  assumes "2 * length ts + 2 \<le> n + 2 * pos" and "2 \<le> n"
  shows "\<exists>y. assignment n ts pos = Some y"
proof -
  have e: "\<exists>y. expression n ts p = Some y" if "pos \<le> p" for p
    using that assms by (intro expression_enough) simp_all
  show ?thesis
    unfolding assignment_def Let_def advance_def
    using match_step [of ts "pos + 1" "''OP''" "Some ''=''"]
    by (auto simp: ok_def split: prod.splits intro!: and_then_returns e)
qed

lemma return_enough:
  assumes "2 * length ts + 2 \<le> n + 2 * pos" and "2 \<le> n"
  shows "\<exists>y. return_statement n ts pos = Some y"
proof -
  have e: "\<exists>y. expression n ts p = Some y" if "pos \<le> p" for p
    using that assms by (intro expression_enough) simp_all
  show ?thesis
    unfolding return_statement_def Let_def advance_def
    by (auto simp: ok_def raise_def split: prod.splits intro!: and_then_returns e)
qed

lemma statement_lt:
  "statement n ts pos = Some (Inr (True, p)) \<Longrightarrow> pos < p \<and> pos < length ts"
  using statement_progress by blast

lemma statement_le: "statement n ts pos = Some (Inr (b, p)) \<Longrightarrow> pos \<le> p"
  using statement_progress by blast

lemma block_le: "block n ts pos = Some (Inr (b, p)) \<Longrightarrow> pos \<le> p"
  using statement_progress by blast

lemma match_then_returns:
  assumes "et \<noteq> ''EOF''"
    and "Suc pos \<le> length ts \<Longrightarrow> \<exists>y. k True (Suc pos) = Some y"
    and "\<exists>y. k False pos = Some y"
  shows "\<exists>y. (case match ts pos et ev of (m, p) \<Rightarrow> k m p) = Some y"
proof -
  obtain m p where m: "match ts pos et ev = (m, p)" by force
  from match_result [OF m assms(1)] show ?thesis using assms(2,3) m by auto
qed

lemma expression_then_returns:
  assumes "2 * length ts + 2 \<le> n + 2 * p" and "2 \<le> n"
    and "\<And>p'. p < p' \<Longrightarrow> \<exists>y. k p' = Some y"
  shows "\<exists>y. and_then (expression n ts p) k = Some y"
  using assms(3) expression_enough [OF assms(1,2)]
  by (intro and_then_returns) (auto dest!: expression_lt)

lemma assignment_then_returns:
  assumes "2 * length ts + 2 \<le> n + 2 * p" and "2 \<le> n"
    and "\<And>p'. p < p' \<Longrightarrow> \<exists>y. k p' = Some y"
  shows "\<exists>y. and_then (assignment n ts p) (\<lambda>(b, p'). k p') = Some y"
  using assms(3) assignment_enough [OF assms(1,2)]
  by (intro and_then_returns) (auto dest!: assignment_progress)

lemma block_then_returns:
  assumes "\<exists>y. block n ts p = Some y"
    and "\<And>p'. p \<le> p' \<Longrightarrow> \<exists>y. k p' = Some y"
  shows "\<exists>y. and_then (block n ts p) (\<lambda>(b, p'). if \<not> b then raise msg else k p') = Some y"
  using assms by (intro and_then_returns) (auto simp: raise_def dest!: block_le)

lemma statement_then_returns:
  assumes "\<exists>y. statement n ts p = Some y"
    and "\<And>p'. p \<le> p' \<Longrightarrow> \<exists>y. k p' = Some y"
  shows "\<exists>y. and_then (statement n ts p) (\<lambda>(b, p'). k p') = Some y"
  using assms by (intro and_then_returns) (auto dest!: statement_le)

lemma statement_loop_returns:
  assumes "\<exists>y. statement n ts p = Some y"
    and "\<And>p'. p < p' \<Longrightarrow> p < length ts \<Longrightarrow> \<exists>y. k p' = Some y"
  shows "\<exists>y. and_then (statement n ts p) (\<lambda>(s, p'). if \<not> s then raise (msg p') else k p') = Some y"
  using assms by (intro and_then_returns) (auto simp: raise_def dest!: statement_lt)

lemma ok_returns: "\<exists>y. ok x = Some y"
  by (simp add: ok_def)

lemma raise_returns: "\<exists>y. raise msg = Some y"
  by (simp add: raise_def)

lemmas returns_intros =
  match_then_returns expression_then_returns assignment_then_returns block_then_returns
  statement_then_returns statement_loop_returns ok_returns raise_returns

lemma statement_enough:
  "(\<forall>pos. 2 * length ts + 3 \<le> n + 2 * pos \<and> 3 \<le> n \<longrightarrow> (\<exists>y. statement n ts pos = Some y))
   \<and> (\<forall>pos. 2 * length ts + 2 \<le> n + 2 * pos \<and> 2 \<le> n \<longrightarrow> (\<exists>y. if_statement n ts pos = Some y))
   \<and> (\<forall>pos. 2 * length ts + 2 \<le> n + 2 * pos \<and> 2 \<le> n \<longrightarrow> (\<exists>y. while_loop n ts pos = Some y))
   \<and> (\<forall>pos. 2 * length ts + 2 \<le> n + 2 * pos \<and> 2 \<le> n \<longrightarrow> (\<exists>y. for_loop n ts pos = Some y))
   \<and> (\<forall>pos. 2 * length ts + 3 \<le> n + 2 * pos \<and> 3 \<le> n \<longrightarrow> (\<exists>y. block n ts pos = Some y))
   \<and> (\<forall>pos. 2 * length ts + 4 \<le> n + 2 * pos \<and> 4 \<le> n \<longrightarrow> (\<exists>y. block_loop n ts pos = Some y))"
proof (induction n)
  case 0
  show ?case by simp
next
  case (Suc n)
  have ih_s: "\<exists>y. statement n ts pos = Some y"
    if "2 * length ts + 3 \<le> n + 2 * pos" "3 \<le> n" for pos
    using that Suc by blast
  have ih_i: "\<exists>y. if_statement n ts pos = Some y"
    if "2 * length ts + 2 \<le> n + 2 * pos" "2 \<le> n" for pos
    using that Suc by blast
  have ih_w: "\<exists>y. while_loop n ts pos = Some y"
    if "2 * length ts + 2 \<le> n + 2 * pos" "2 \<le> n" for pos
    using that Suc by blast
  have ih_f: "\<exists>y. for_loop n ts pos = Some y"
    if "2 * length ts + 2 \<le> n + 2 * pos" "2 \<le> n" for pos
    using that Suc by blast
  have ih_b: "\<exists>y. block n ts pos = Some y"
    if "2 * length ts + 3 \<le> n + 2 * pos" "3 \<le> n" for pos
    using that Suc by blast
  have ih_l: "\<exists>y. block_loop n ts pos = Some y"
    if "2 * length ts + 4 \<le> n + 2 * pos" "4 \<le> n" for pos
    using that Suc by blast
  have s: "\<exists>y. statement (Suc n) ts pos = Some y"
    if b: "2 * length ts + 3 \<le> Suc n + 2 * pos" "3 \<le> Suc n" for pos
  proof -
    have c: "2 * length ts + 2 \<le> n + 2 * pos" "2 \<le> n" using b by simp_all
    show ?thesis
      using ih_i [OF c] ih_w [OF c] ih_f [OF c] declaration_enough [OF c]
        assignment_enough [OF c] return_enough [OF c]
      by (auto simp: ok_def split: prod.splits)
  qed
  have i: "\<exists>y. if_statement (Suc n) ts pos = Some y"
    if b: "2 * length ts + 2 \<le> Suc n + 2 * pos" "2 \<le> Suc n" for pos
    using b by (auto simp: Let_def advance_def intro!: returns_intros ih_b)
  have w: "\<exists>y. while_loop (Suc n) ts pos = Some y"
    if b: "2 * length ts + 2 \<le> Suc n + 2 * pos" "2 \<le> Suc n" for pos
    using b by (auto simp: Let_def advance_def intro!: returns_intros ih_b)
  have f: "\<exists>y. for_loop (Suc n) ts pos = Some y"
    if b: "2 * length ts + 2 \<le> Suc n + 2 * pos" "2 \<le> Suc n" for pos
    using b by (auto simp: Let_def advance_def intro!: returns_intros ih_b ih_s)
  have bl: "\<exists>y. block (Suc n) ts pos = Some y"
    if b: "2 * length ts + 3 \<le> Suc n + 2 * pos" "3 \<le> Suc n" for pos
    using b by (auto simp: Let_def advance_def intro!: returns_intros ih_l)
  have l: "\<exists>y. block_loop (Suc n) ts pos = Some y"
    if b: "2 * length ts + 4 \<le> Suc n + 2 * pos" "4 \<le> Suc n" for pos
    using b by (auto simp: Let_def advance_def intro!: returns_intros ih_l ih_s)
  show ?case using s i w f bl l by blast
qed

lemma parse_loop_enough:
  "2 * length ts + 5 \<le> n + 2 * pos \<Longrightarrow> 5 \<le> n \<Longrightarrow> \<exists>y. parse_loop n ts pos = Some y"
proof (induction n arbitrary: pos)
  case 0
  then show ?case by simp
next
  case (Suc n)
  have s: "\<exists>y. statement n ts pos = Some y" if "pos < length ts"
    using that Suc.prems statement_enough [of ts n] by auto
  show ?case
    using Suc.prems
    by (auto intro!: returns_intros s Suc.IH)
qed

lemma main_header_le: "main_header ts pos = (m, p) \<Longrightarrow> pos \<le> p"
  unfolding main_header_def Let_def
  by (auto split: prod.splits if_splits dest!: match_le)

lemma parse_body_enough:
  assumes "2 * length ts + 5 \<le> n"
  shows "\<exists>y. parse_body n ts = Some y"
proof -
  have l: "\<exists>y. parse_loop n ts p = Some y" for p
    using assms by (intro parse_loop_enough) simp_all
  have b: "\<exists>y. block n ts p = Some y" for p
    using assms statement_enough [of ts n] by auto
  show ?thesis
    unfolding parse_body_def
    by (auto simp: ok_def raise_def split: prod.splits intro!: and_then_returns l b)
qed

lemma parse_fuel_enough:
  assumes "2 * length ts + 5 \<le> n"
  shows "parse_fuel n ts = Some Accepted \<or> (\<exists>msg. parse_fuel n ts = Some (Rejected msg))"
proof -
  from parse_body_enough [OF assms] obtain y where "parse_body n ts = Some y" by blast
  then show ?thesis
    by (cases y) (auto simp: parse_fuel_def split: error.splits)
qed

lemma grows_refl: "flat_ord None x x"
  by (simp add: flat_ord_def)

lemma grows_None: "flat_ord None None x"
  by (simp add: flat_ord_def)

lemma grows_and_then:
  assumes "flat_ord None m m'" and "\<And>x. flat_ord None (f x) (f' x)"
  shows "flat_ord None (and_then m f) (and_then m' f')"
  using assms by (auto simp: flat_ord_def and_then_def split: option.splits sum.splits)

lemma grows_if:
  assumes "c \<Longrightarrow> flat_ord None a a'" and "\<not> c \<Longrightarrow> flat_ord None b b'"
  shows "flat_ord None (if c then a else b) (if c then a' else b')"
  using assms by simp

lemma grows_case_prod:
  assumes "\<And>a b. flat_ord None (k a b) (k' a b)"
  shows "flat_ord None (case x of (a, b) \<Rightarrow> k a b) (case x of (a, b) \<Rightarrow> k' a b)"
  using assms by (cases x) simp

lemma grows_SomeD: "flat_ord None x y \<Longrightarrow> x = Some r \<Longrightarrow> y = Some r"
  by (auto simp: flat_ord_def)

lemma expression_grows:
  "flat_ord None (expression n ts pos) (expression (Suc n) ts pos)"
  using expression_mono_Suc [of n ts] by (cases "expression n ts pos") (auto simp: flat_ord_def)

lemmas grows_intros =
  grows_and_then grows_if grows_case_prod expression_grows grows_refl

lemma declaration_grows:
  "flat_ord None (declaration_rule n ts pos) (declaration_rule (Suc n) ts pos)"
  unfolding declaration_rule_def Let_def by (intro grows_intros)

lemma assignment_grows:
  "flat_ord None (assignment n ts pos) (assignment (Suc n) ts pos)"
  unfolding assignment_def Let_def by (intro grows_intros)

lemma return_grows:
  "flat_ord None (return_statement n ts pos) (return_statement (Suc n) ts pos)"
  unfolding return_statement_def Let_def by (intro grows_intros)

lemma statement_grows:
  "(\<forall>pos. flat_ord None (statement n ts pos) (statement (Suc n) ts pos))
   \<and> (\<forall>pos. flat_ord None (if_statement n ts pos) (if_statement (Suc n) ts pos))
   \<and> (\<forall>pos. flat_ord None (while_loop n ts pos) (while_loop (Suc n) ts pos))
   \<and> (\<forall>pos. flat_ord None (for_loop n ts pos) (for_loop (Suc n) ts pos))
   \<and> (\<forall>pos. flat_ord None (block n ts pos) (block (Suc n) ts pos))
   \<and> (\<forall>pos. flat_ord None (block_loop n ts pos) (block_loop (Suc n) ts pos))"
proof (induction n)
  case 0
  show ?case
    by (intro conjI allI; subst statement_simps(1,3,5,7,9,11); rule grows_None)
next
  case (Suc n)
  have ih_s: "flat_ord None (statement n ts pos) (statement (Suc n) ts pos)" for pos
    using Suc by blast
  have ih_i: "flat_ord None (if_statement n ts pos) (if_statement (Suc n) ts pos)" for pos
    using Suc by blast
  have ih_w: "flat_ord None (while_loop n ts pos) (while_loop (Suc n) ts pos)" for pos
    using Suc by blast
  have ih_f: "flat_ord None (for_loop n ts pos) (for_loop (Suc n) ts pos)" for pos
    using Suc by blast
  have ih_b: "flat_ord None (block n ts pos) (block (Suc n) ts pos)" for pos
    using Suc by blast
  have ih_l: "flat_ord None (block_loop n ts pos) (block_loop (Suc n) ts pos)" for pos
    using Suc by blast
  note ih = ih_s ih_i ih_w ih_f ih_b ih_l declaration_grows assignment_grows return_grows
  have s: "flat_ord None (statement (Suc n) ts pos) (statement (Suc (Suc n)) ts pos)" for pos
    apply (subst statement.simps(2))
    apply (subst statement.simps(2))
    unfolding Let_def
    by (intro grows_and_then grows_if grows_case_prod ih grows_refl)
  have i: "flat_ord None (if_statement (Suc n) ts pos) (if_statement (Suc (Suc n)) ts pos)"
    for pos
    apply (subst if_statement.simps(2))
    apply (subst if_statement.simps(2))
    unfolding Let_def
    by (intro grows_and_then grows_if grows_case_prod ih expression_grows grows_refl)
  have w: "flat_ord None (while_loop (Suc n) ts pos) (while_loop (Suc (Suc n)) ts pos)"
    for pos
    apply (subst while_loop.simps(2))
    apply (subst while_loop.simps(2))
    unfolding Let_def
    by (intro grows_and_then grows_if grows_case_prod ih expression_grows grows_refl)
  have f: "flat_ord None (for_loop (Suc n) ts pos) (for_loop (Suc (Suc n)) ts pos)" for pos
    apply (subst for_loop.simps(2))
    apply (subst for_loop.simps(2))
    unfolding Let_def
    by (intro grows_and_then grows_if grows_case_prod ih expression_grows grows_refl)
  have b: "flat_ord None (block (Suc n) ts pos) (block (Suc (Suc n)) ts pos)" for pos
    apply (subst block.simps(2))
    apply (subst block.simps(2))
    unfolding Let_def
    by (intro grows_and_then grows_if grows_case_prod ih grows_refl)
  have l: "flat_ord None (block_loop (Suc n) ts pos) (block_loop (Suc (Suc n)) ts pos)" for pos
    apply (subst block_loop.simps(2))
    apply (subst block_loop.simps(2))
    unfolding Let_def
    by (intro grows_and_then grows_if grows_case_prod ih grows_refl)
  show ?case using s i w f b l by blast
qed

lemma block_grows: "flat_ord None (block n ts pos) (block (Suc n) ts pos)"
  using statement_grows by blast

lemma parse_loop_grows: "flat_ord None (parse_loop n ts pos) (parse_loop (Suc n) ts pos)"
proof (induction n arbitrary: pos)
  case 0
  show ?case by (subst parse_loop.simps(1)) (rule grows_None)
next
  case (Suc n)
  have s: "flat_ord None (statement n ts p) (statement (Suc n) ts p)" for p
    using statement_grows by blast
  show ?case
    apply (subst parse_loop.simps(2))
    apply (subst parse_loop.simps(2))
    by (intro grows_and_then grows_if grows_case_prod s Suc.IH grows_refl)
qed

lemma parse_body_grows: "flat_ord None (parse_body n ts) (parse_body (Suc n) ts)"
  unfolding parse_body_def Let_def
  by (intro grows_and_then grows_if grows_case_prod block_grows parse_loop_grows grows_refl)

lemma parse_fuel_Suc:
  assumes "parse_fuel n ts = Some out"
  shows "parse_fuel (Suc n) ts = Some out"
proof -
  from assms obtain y where y: "parse_body n ts = Some y"
    by (auto simp: parse_fuel_def split: option.splits)
  then have "parse_body (Suc n) ts = Some y"
    using parse_body_grows [of n ts] by (rule grows_SomeD [rotated])
  then show ?thesis using assms y by (simp add: parse_fuel_def)
qed

lemma parse_fuel_mono:
  assumes "parse_fuel n ts = Some out" and "n \<le> m"
  shows "parse_fuel m ts = Some out"
  using assms(2,1) by (induction rule: dec_induct) (auto intro: parse_fuel_Suc)

lemma parse_fuel_independent:
  assumes "2 * length ts + 5 \<le> n"
  shows "parse_fuel n ts = parse ts"
proof -
  let ?k = "2 * length ts + 5"
  from parse_fuel_enough [of ts ?k] obtain out where k: "parse_fuel ?k ts = Some out"
    by auto
  have "parse_fuel n ts = Some out" using k assms by (rule parse_fuel_mono)
  moreover have "parse ts = Some out"
    unfolding parse_def using k by (rule parse_fuel_mono) simp
  ultimately show ?thesis by simp
qed

lemma peek_OP:
  assumes "peek ts pos = (''OP'', v)"
  shows "match ts pos ''OP'' None = (True, pos + 1) \<and> snd (ts ! pos) = v"
  using assms by (auto simp: match_def peek_def advance_def split: if_splits)

lemma match_fst_True: "fst (match ts pos et ev) \<Longrightarrow> match ts pos et ev = (True, pos + 1)"
  using match_step [of ts pos et ev] by auto

lemma match_fst_False: "\<not> fst (match ts pos et ev) \<Longrightarrow> match ts pos et ev = (False, pos)"
  using match_step [of ts pos et ev] by auto

lemma main_header_partial:
  assumes "k < 4"
    and "\<forall>i<k. fst (match ts i (fst (main_prefix ! i)) (snd (main_prefix ! i)))"
    and "\<not> fst (match ts k (fst (main_prefix ! k)) (snd (main_prefix ! k)))"
  shows "main_header ts 0 = (False, k)"
proof -
  from assms(1) consider "k = 0" | "k = 1" | "k = 2" | "k = 3" by linarith
  then show ?thesis
  proof cases
    case 1
    then have "match ts 0 ''KEYWORD'' (Some ''int'') = (False, 0)"
      using assms(3) match_fst_False [of ts 0] by (simp add: main_prefix_def)
    then show ?thesis using 1 by (simp add: main_header_def)
  next
    case 2
    then have "match ts 0 ''KEYWORD'' (Some ''int'') = (True, 1)"
      "match ts 1 ''KEYWORD'' (Some ''main'') = (False, 1)"
      using assms(2,3) match_fst_True [of ts 0] match_fst_False [of ts 1]
      by (simp_all add: main_prefix_def)
    then show ?thesis using 2 by (simp add: main_header_def)
  next
    case 3
    then have "match ts 0 ''KEYWORD'' (Some ''int'') = (True, 1)"
      "match ts 1 ''KEYWORD'' (Some ''main'') = (True, 2)"
      "match ts 2 ''LPAREN'' None = (False, 2)"
      using assms(2) [rule_format, of 0] assms(2) [rule_format, of 1] assms(3)
        match_fst_True [of ts 0] match_fst_True [of ts 1] match_fst_False [of ts 2]
      by (simp_all add: main_prefix_def eval_nat_numeral)
    then show ?thesis using 3 by (simp add: main_header_def)
  next
    case 4
    then have "match ts 0 ''KEYWORD'' (Some ''int'') = (True, 1)"
      "match ts 1 ''KEYWORD'' (Some ''main'') = (True, 2)"
      "match ts 2 ''LPAREN'' None = (True, 3)"
      "match ts 3 ''RPAREN'' None = (False, 3)"
      using assms(2) [rule_format, of 0] assms(2) [rule_format, of 1]
        assms(2) [rule_format, of 2] assms(3)
        match_fst_True [of ts 0] match_fst_True [of ts 1] match_fst_True [of ts 2]
        match_fst_False [of ts 3]
      by (simp_all add: main_prefix_def eval_nat_numeral)
    then show ?thesis using 4 by (simp add: main_header_def)
  qed
qed

section \<open>Facts about the parser on the stack of the interpreter\<close>


lemma then_run_Inr:
  "then_run m f = Some (Inr y) \<Longrightarrow> \<exists>x. m = Some (Inr x) \<and> f x = Some (Inr y)"
  by (auto simp: then_run_def split: option.splits sum.splits)

lemma call_peek_Inr: "call_peek d ts pos = Some (Inr t) \<Longrightarrow> peek ts pos = t \<and> 1 \<le> d"
  by (auto simp: call_peek_def recursion_error_def returned_def split: if_splits)

lemma call_advance_Inr: "call_advance d pos = Some (Inr p) \<Longrightarrow> p = pos + 1 \<and> 1 \<le> d"
  by (auto simp: call_advance_def advance_def recursion_error_def returned_def split: if_splits)

lemma call_match_Inr:
  "call_match d ts pos et ev = Some (Inr x) \<Longrightarrow> match ts pos et ev = x \<and> 2 \<le> d"
  by (auto simp: call_match_def recursion_error_def returned_def split: if_splits)

lemmas expression_lim_simps = term_lim.simps expression_lim.simps expression_loop_lim.simps

lemma expression_loop_lim_le:
  assumes "\<And>pos p. term_lim d ts pos = Some (Inr p) \<Longrightarrow> pos < p"
  shows "expression_loop_lim d k ts pos = Some (Inr p) \<Longrightarrow> pos \<le> p"
proof (induction k arbitrary: pos)
  case 0
  then show ?case by simp
next
  case (Suc k)
  from Suc.prems obtain m p1 where m: "match ts pos ''OP'' None = (m, p1)"
    and r: "(if m \<and> snd (ts ! (p1 - 1)) \<in> set binary_ops
             then then_run (term_lim d ts p1) (\<lambda>p2. expression_loop_lim d k ts p2)
             else returned p1) = Some (Inr p)"
    by (auto dest!: then_run_Inr call_match_Inr)
  have p1: "pos \<le> p1" using m by (rule match_le)
  show ?case
  proof (cases "m \<and> snd (ts ! (p1 - 1)) \<in> set binary_ops")
    case True
    with r obtain p2 where "term_lim d ts p1 = Some (Inr p2)" "expression_loop_lim d k ts p2 = Some (Inr p)"
      by (auto dest!: then_run_Inr)
    then have "p1 < p2" "p2 \<le> p" using assms Suc.IH by blast+
    then show ?thesis using p1 by simp
  next
    case False
    with r have "p = p1" by (auto simp: returned_def)
    then show ?thesis using p1 by simp
  qed
qed

lemma expression_lim_progress:
  "(\<forall>pos p. term_lim d ts pos = Some (Inr p) \<longrightarrow> pos < p \<and> pos < length ts)
   \<and> (\<forall>pos p. expression_lim d ts pos = Some (Inr p) \<longrightarrow> pos < p \<and> pos < length ts)"
proof (induction d)
  case 0
  show ?case by (simp add: recursion_error_def)
next
  case (Suc d)
  have t: "pos < p \<and> pos < length ts" if a: "term_lim (Suc d) ts pos = Some (Inr p)" for pos p
  proof (cases "fst (peek ts pos) \<in> {''NUMBER'', ''ID'', ''KEYWORD''}")
    case True
    then have "pos < length ts" by (auto simp: peek_def split: if_splits)
    moreover from a True have "p = pos + 1"
      by (auto split: prod.splits dest!: then_run_Inr call_peek_Inr call_advance_Inr)
    ultimately show ?thesis by simp
  next
    case False
    from a False obtain m1 p1 where m: "match ts pos ''LPAREN'' None = (m1, p1)"
      and r: "(if m1 then
             then_run (expression_lim d ts p1) (\<lambda>p2.
               then_run (call_match d ts p2 ''RPAREN'' None) (\<lambda>(m2, p3).
                 if \<not> m2 then syntax_error ''Missing closing parenthesis'' else returned p3))
           else
             then_run (call_peek d ts p1) (\<lambda>t.
               syntax_error (''Unexpected token in term: '' @ repr_token t))) = Some (Inr p)"
      by (auto split: prod.splits dest!: then_run_Inr call_peek_Inr call_match_Inr)
    show ?thesis
    proof (cases m1)
      case True
      then have p1: "p1 = pos + 1" "pos < length ts"
        using m match_True [of ts pos "''LPAREN''" None p1] by simp_all
      from r True obtain p2 m2 where e: "expression_lim d ts p1 = Some (Inr p2)"
        and m2: "match ts p2 ''RPAREN'' None = (m2, p)"
        by (auto simp: syntax_error_def returned_def split: prod.splits if_splits
            dest!: then_run_Inr call_match_Inr)
      from e Suc have "p1 < p2" by blast
      moreover from m2 have "p2 \<le> p" by (rule match_le)
      ultimately show ?thesis using p1 by simp
    next
      case F: False
      with r show ?thesis by (auto simp: syntax_error_def dest!: then_run_Inr)
    qed
  qed
  have e: "pos < p \<and> pos < length ts" if a: "expression_lim (Suc d) ts pos = Some (Inr p)" for pos p
  proof -
    from a obtain q where q: "term_lim d ts pos = Some (Inr q)"
      and l: "expression_loop_lim d (length ts + 1) ts q = Some (Inr p)"
      by (auto dest!: then_run_Inr)
    from q Suc have "pos < q \<and> pos < length ts" by blast
    moreover from l have "q \<le> p" by (rule expression_loop_lim_le [rotated]) (use Suc in blast)
    ultimately show ?thesis by simp
  qed
  show ?case using t e by blast
qed

lemma term_lim_lt: "term_lim d ts pos = Some (Inr p) \<Longrightarrow> pos < p \<and> pos < length ts"
  using expression_lim_progress by blast

lemma expression_lim_lt: "expression_lim d ts pos = Some (Inr p) \<Longrightarrow> pos < p \<and> pos < length ts"
  using expression_lim_progress by blast


lemmas statement_lim_simps =
  statement_lim.simps if_statement_lim.simps while_loop_lim.simps for_loop_lim.simps
  block_lim.simps block_loop_lim.simps

lemma declaration_lim_progress:
  "declaration_lim d ts pos = Some (Inr (b, p)) \<Longrightarrow> pos < p"
  unfolding declaration_lim_def
  by (auto simp: returned_def recursion_error_def split: nat.splits prod.splits if_splits
      dest!: then_run_Inr call_advance_Inr call_match_Inr match_le expression_lim_lt)

lemma assignment_lim_progress:
  "assignment_lim d ts pos = Some (Inr (b, p)) \<Longrightarrow> pos < p"
  unfolding assignment_lim_def
  by (auto simp: returned_def recursion_error_def split: nat.splits prod.splits if_splits
      dest!: then_run_Inr call_advance_Inr call_match_Inr match_le expression_lim_lt)

lemma return_statement_lim_progress:
  "return_statement_lim d ts pos = Some (Inr (b, p)) \<Longrightarrow> pos < p"
  unfolding return_statement_lim_def
  by (auto simp: returned_def recursion_error_def syntax_error_def
      split: nat.splits prod.splits if_splits
      dest!: then_run_Inr call_advance_Inr call_match_Inr match_le expression_lim_lt)

lemma block_loop_lim_le:
  assumes "\<And>pos b p. statement_lim d ts pos = Some (Inr (b, p)) \<Longrightarrow> pos \<le> p"
  shows "block_loop_lim d k ts pos = Some (Inr (b, p)) \<Longrightarrow> pos \<le> p"
proof (induction k arbitrary: pos)
  case 0
  then show ?case by simp
next
  case (Suc k)
  from Suc.prems show ?case
    by (auto simp: returned_def syntax_error_def split: prod.splits if_splits
        dest!: then_run_Inr call_match_Inr call_peek_Inr match_le assms Suc.IH)
qed

lemma statement_lim_progress:
  "(\<forall>pos b p. statement_lim d ts pos = Some (Inr (b, p)) \<longrightarrow>
      pos \<le> p \<and> (b \<longrightarrow> pos < p \<and> pos < length ts))
   \<and> (\<forall>pos b p. if_statement_lim d ts pos = Some (Inr (b, p)) \<longrightarrow> pos < p)
   \<and> (\<forall>pos b p. while_loop_lim d ts pos = Some (Inr (b, p)) \<longrightarrow> pos < p)
   \<and> (\<forall>pos b p. for_loop_lim d ts pos = Some (Inr (b, p)) \<longrightarrow> pos < p)
   \<and> (\<forall>pos b p. block_lim d ts pos = Some (Inr (b, p)) \<longrightarrow> pos \<le> p)"
proof (induction d)
  case 0
  show ?case by (simp add: recursion_error_def)
next
  case (Suc d)
  have ih_s: "pos \<le> p" if "statement_lim d ts pos = Some (Inr (b, p))" for pos b p
    using that Suc by blast
  have ih_b: "pos \<le> p" if "block_lim d ts pos = Some (Inr (b, p))" for pos b p
    using that Suc by blast
  have ih_l: "pos \<le> p" if "block_loop_lim d k ts pos = Some (Inr (b, p))" for k pos b p
    using that ih_s by (rule block_loop_lim_le [rotated])
  have ih_i: "pos < p" if "if_statement_lim d ts pos = Some (Inr (b, p))" for pos b p
    using that Suc by blast
  have ih_w: "pos < p" if "while_loop_lim d ts pos = Some (Inr (b, p))" for pos b p
    using that Suc by blast
  have ih_f: "pos < p" if "for_loop_lim d ts pos = Some (Inr (b, p))" for pos b p
    using that Suc by blast
  have s: "pos \<le> p \<and> (b \<longrightarrow> pos < p \<and> pos < length ts)"
    if a: "statement_lim (Suc d) ts pos = Some (Inr (b, p))" for pos b p
  proof -
    from a obtain k v where pk: "peek ts pos = (k, v)" by force
    show ?thesis
    proof (cases "k = ''KEYWORD'' \<or> k = ''ID''")
      case True
      then have r: "pos < length ts" using pk peek_in_range [of ts pos k] by auto
      have "pos \<le> p \<and> (b \<longrightarrow> pos < p)"
        using a pk True
        by (auto simp: returned_def split: if_splits
            dest!: then_run_Inr call_peek_Inr declaration_lim_progress assignment_lim_progress
              return_statement_lim_progress ih_i ih_w ih_f)
      then show ?thesis using r by simp
    next
      case False
      then show ?thesis using a pk
        by (auto simp: returned_def dest!: then_run_Inr call_peek_Inr)
    qed
  qed
  have i: "pos < p" if a: "if_statement_lim (Suc d) ts pos = Some (Inr (b, p))" for pos b p
    using a
    by (auto simp: returned_def syntax_error_def split: prod.splits if_splits
        dest!: then_run_Inr call_advance_Inr call_match_Inr match_le expression_lim_lt ih_b)
  have w: "pos < p" if a: "while_loop_lim (Suc d) ts pos = Some (Inr (b, p))" for pos b p
    using a
    by (auto simp: returned_def syntax_error_def split: prod.splits if_splits
        dest!: then_run_Inr call_advance_Inr call_match_Inr match_le expression_lim_lt ih_b)
  have f: "pos < p" if a: "for_loop_lim (Suc d) ts pos = Some (Inr (b, p))" for pos b p
    using a
    by (auto simp: returned_def syntax_error_def split: prod.splits if_splits
        dest!: then_run_Inr call_advance_Inr call_match_Inr match_le expression_lim_lt ih_b
          ih_s assignment_lim_progress)
  have bl: "pos \<le> p" if a: "block_lim (Suc d) ts pos = Some (Inr (b, p))" for pos b p
    using a
    by (auto simp: returned_def simp del: block_loop_lim.simps split: prod.splits if_splits
        dest!: then_run_Inr call_match_Inr match_le ih_l)
  show ?case using s i w f bl by blast
qed

lemma statement_lim_lt:
  "statement_lim d ts pos = Some (Inr (True, p)) \<Longrightarrow> pos < p \<and> pos < length ts"
  using statement_lim_progress by blast

lemma statement_lim_le: "statement_lim d ts pos = Some (Inr (b, p)) \<Longrightarrow> pos \<le> p"
  using statement_lim_progress by blast

lemma block_lim_le: "block_lim d ts pos = Some (Inr (b, p)) \<Longrightarrow> pos \<le> p"
  using statement_lim_progress by blast


lemma settles_then:
  assumes "settles A m" and "\<And>x. m = Some (Inr x) \<Longrightarrow> settles A (f x)"
  shows "settles A (then_run m f)"
  using assms by (auto simp: settles_def then_run_def split: option.splits sum.splits)

lemma settles_returned: "settles A (returned x)"
  by (simp add: settles_def returned_def)

lemma settles_syntax_error: "settles A (syntax_error msg)"
  by (simp add: settles_def syntax_error_def)

lemma settles_peek:
  assumes "A \<Longrightarrow> 1 \<le> d"
    and "\<And>tt tv. peek ts pos = (tt, tv) \<Longrightarrow> settles A (k tt tv)"
  shows "settles A (then_run (call_peek d ts pos) (\<lambda>(tt, tv). k tt tv))"
proof (cases "d < 1")
  case True
  then show ?thesis using assms(1)
    by (auto simp: settles_def call_peek_def recursion_error_def then_run_def)
next
  case False
  obtain tt tv where "peek ts pos = (tt, tv)" by force
  then show ?thesis using False assms(2)
    by (simp add: call_peek_def returned_def then_run_def)
qed

lemma settles_peek_raise:
  assumes "A \<Longrightarrow> 1 \<le> d"
  shows "settles A (then_run (call_peek d ts pos) (\<lambda>t. syntax_error (msg t)))"
  using assms
  by (auto simp: settles_def call_peek_def recursion_error_def returned_def then_run_def
      syntax_error_def)

lemma settles_advance:
  assumes "A \<Longrightarrow> 1 \<le> d"
  shows "settles A (call_advance d pos)"
  using assms
  by (auto simp: settles_def call_advance_def recursion_error_def returned_def)

lemma settles_advance_then:
  assumes "A \<Longrightarrow> 1 \<le> d" and "settles A (k (Suc pos))"
  shows "settles A (then_run (call_advance d pos) k)"
  using assms
  by (auto simp: settles_def call_advance_def advance_def recursion_error_def returned_def
      then_run_def)

lemma settles_match:
  assumes "A \<Longrightarrow> 2 \<le> d"
  shows "settles A (call_match d ts pos et ev)"
  using assms
  by (auto simp: settles_def call_match_def recursion_error_def returned_def)

lemma settles_match_then:
  assumes "et \<noteq> ''EOF''" and "A \<Longrightarrow> 2 \<le> d"
    and "Suc pos \<le> length ts \<Longrightarrow> settles A (k True (Suc pos))"
    and "settles A (k False pos)"
  shows "settles A (then_run (call_match d ts pos et ev) (\<lambda>(m, p). k m p))"
proof (cases "d < 2")
  case True
  then show ?thesis using assms(2)
    by (auto simp: settles_def call_match_def recursion_error_def then_run_def)
next
  case False
  obtain m p where m: "match ts pos et ev = (m, p)" by force
  from match_result [OF m assms(1)] show ?thesis using False assms(3,4) m
    by (auto simp: call_match_def returned_def then_run_def)
qed

lemma settles_expression_then:
  assumes "settles A (expression_lim d ts p)"
    and "\<And>p'. p < p' \<Longrightarrow> p < length ts \<Longrightarrow> settles A (k p')"
  shows "settles A (then_run (expression_lim d ts p) k)"
  using assms by (intro settles_then) (auto dest!: expression_lim_lt)

lemma settles_term_then:
  assumes "settles A (term_lim d ts p)"
    and "\<And>p'. p < p' \<Longrightarrow> p < length ts \<Longrightarrow> settles A (k p')"
  shows "settles A (then_run (term_lim d ts p) k)"
  using assms by (intro settles_then) (auto dest!: term_lim_lt)

lemma settles_recursion_error: "\<not> A \<Longrightarrow> settles A recursion_error"
  by (simp add: settles_def recursion_error_def)

lemma expression_loop_lim_settles:
  assumes t: "\<And>p B. (B \<Longrightarrow> 2 * length ts + 3 \<le> d + 2 * p \<and> 3 \<le> d) \<Longrightarrow> settles B (term_lim d ts p)"
  shows "length ts < k + pos \<Longrightarrow> 0 < k
    \<Longrightarrow> (A \<Longrightarrow> 2 * length ts + 2 \<le> d + 2 * pos \<and> 2 \<le> d)
    \<Longrightarrow> settles A (expression_loop_lim d k ts pos)"
proof (induction k arbitrary: pos)
  case 0
  then show ?case by simp
next
  case (Suc k)
  show ?case
    using Suc.prems
    by (auto simp: settles_returned
        intro!: settles_match_then settles_term_then t Suc.IH)
qed

lemma expression_lim_settles:
  "(\<forall>pos A. (A \<longrightarrow> 2 * length ts + 3 \<le> d + 2 * pos \<and> 3 \<le> d) \<longrightarrow> settles A (term_lim d ts pos))
   \<and> (\<forall>pos A. (A \<longrightarrow> 2 * length ts + 4 \<le> d + 2 * pos \<and> 4 \<le> d) \<longrightarrow> settles A (expression_lim d ts pos))"
proof (induction d)
  case 0
  show ?case by (auto intro!: settles_recursion_error)
next
  case (Suc d)
  have ih_t: "settles A (term_lim d ts pos)"
    if "A \<Longrightarrow> 2 * length ts + 3 \<le> d + 2 * pos \<and> 3 \<le> d" for pos A
    using that Suc by blast
  have ih_e: "settles A (expression_lim d ts pos)"
    if "A \<Longrightarrow> 2 * length ts + 4 \<le> d + 2 * pos \<and> 4 \<le> d" for pos A
    using that Suc by blast
  have ih_l: "settles A (expression_loop_lim d (Suc (length ts)) ts pos)"
    if "A \<Longrightarrow> 2 * length ts + 2 \<le> d + 2 * pos \<and> 2 \<le> d" for pos A
    using that by (intro expression_loop_lim_settles ih_t) simp_all
  have t: "settles A (term_lim (Suc d) ts pos)"
    if b: "A \<Longrightarrow> 2 * length ts + 3 \<le> Suc d + 2 * pos \<and> 3 \<le> Suc d" for pos A
    using b
    by (auto simp: settles_returned settles_syntax_error
        intro!: settles_peek settles_advance settles_match_then settles_expression_then
          settles_peek_raise ih_e)
  have e: "settles A (expression_lim (Suc d) ts pos)"
    if b: "A \<Longrightarrow> 2 * length ts + 4 \<le> Suc d + 2 * pos \<and> 4 \<le> Suc d" for pos A
    using b
    by (auto simp del: expression_loop_lim.simps intro!: settles_term_then ih_t ih_l)
  show ?case using t e by blast
qed


lemma expression_lim_enough:
  "(A \<Longrightarrow> 2 * length ts + 4 \<le> d + 2 * pos \<and> 4 \<le> d) \<Longrightarrow> settles A (expression_lim d ts pos)"
  using expression_lim_settles by blast

lemma declaration_lim_settles:
  assumes "A \<Longrightarrow> 2 * length ts + 5 \<le> d + 2 * pos \<and> 5 \<le> d"
  shows "settles A (declaration_lim d ts pos)"
proof (cases d)
  case 0
  then show ?thesis using assms
    by (auto simp: declaration_lim_def intro!: settles_recursion_error)
next
  case (Suc d')
  then show ?thesis
    using assms unfolding declaration_lim_def
    by (auto simp: settles_returned
        intro!: settles_advance_then settles_match_then settles_expression_then
          expression_lim_enough settles_then [where m = "returned _"])
qed

lemma assignment_lim_settles:
  assumes "A \<Longrightarrow> 2 * length ts + 5 \<le> d + 2 * pos \<and> 5 \<le> d"
  shows "settles A (assignment_lim d ts pos)"
proof (cases d)
  case 0
  then show ?thesis using assms
    by (auto simp: assignment_lim_def intro!: settles_recursion_error)
next
  case (Suc d')
  then show ?thesis
    using assms unfolding assignment_lim_def
    by (auto simp: settles_returned
        intro!: settles_advance_then settles_match_then settles_expression_then
          expression_lim_enough)
qed

lemma return_statement_lim_settles:
  assumes "A \<Longrightarrow> 2 * length ts + 5 \<le> d + 2 * pos \<and> 5 \<le> d"
  shows "settles A (return_statement_lim d ts pos)"
proof (cases d)
  case 0
  then show ?thesis using assms
    by (auto simp: return_statement_lim_def intro!: settles_recursion_error)
next
  case (Suc d')
  then show ?thesis
    using assms unfolding return_statement_lim_def
    by (auto simp: settles_returned settles_syntax_error
        intro!: settles_advance_then settles_match_then settles_expression_then
          expression_lim_enough)
qed

lemma settles_assignment_then:
  assumes "settles A (assignment_lim d ts p)"
    and "\<And>p'. p < p' \<Longrightarrow> settles A (k p')"
  shows "settles A (then_run (assignment_lim d ts p) (\<lambda>(b, p'). k p'))"
  using assms by (intro settles_then) (auto dest!: assignment_lim_progress)

lemma settles_block_then:
  assumes "settles A (block_lim d ts p)"
    and "\<And>b p'. p \<le> p' \<Longrightarrow> settles A (k b p')"
  shows "settles A (then_run (block_lim d ts p) (\<lambda>(b, p'). k b p'))"
  using assms by (intro settles_then) (auto dest!: block_lim_le)

lemma settles_statement_then:
  assumes "settles A (statement_lim d ts p)"
    and "\<And>p'. p \<le> p' \<Longrightarrow> settles A (k False p')"
    and "\<And>p'. p < p' \<Longrightarrow> p < length ts \<Longrightarrow> settles A (k True p')"
  shows "settles A (then_run (statement_lim d ts p) (\<lambda>(s, p'). k s p'))"
proof (rule settles_then [OF assms(1)])
  fix x
  assume a: "statement_lim d ts p = Some (Inr x)"
  obtain s p' where x: "x = (s, p')" by force
  show "settles A (case x of (s, p') \<Rightarrow> k s p')"
  proof (cases s)
    case True
    then show ?thesis using a x assms(3) statement_lim_lt [of d ts p p'] by simp
  next
    case False
    then show ?thesis using a x assms(2) statement_lim_le [of d ts p False p'] by simp
  qed
qed

lemma block_loop_lim_settles:
  assumes s: "\<And>p B. (B \<Longrightarrow> 2 * length ts + 6 \<le> d + 2 * p \<and> 6 \<le> d) \<Longrightarrow> settles B (statement_lim d ts p)"
  shows "length ts < k + pos \<Longrightarrow> 0 < k
    \<Longrightarrow> (A \<Longrightarrow> 2 * length ts + 6 \<le> d + 2 * pos \<and> 6 \<le> d)
    \<Longrightarrow> settles A (block_loop_lim d k ts pos)"
proof (induction k arbitrary: pos)
  case 0
  then show ?case by simp
next
  case (Suc k)
  show ?case
    using Suc.prems
    by (auto simp: settles_returned
        intro!: settles_match_then settles_statement_then settles_peek_raise s Suc.IH)
qed

lemma statement_lim_settles:
  "(\<forall>pos A. (A \<longrightarrow> 2 * length ts + 6 \<le> d + 2 * pos \<and> 6 \<le> d) \<longrightarrow> settles A (statement_lim d ts pos))
   \<and> (\<forall>pos A. (A \<longrightarrow> 2 * length ts + 5 \<le> d + 2 * pos \<and> 5 \<le> d) \<longrightarrow> settles A (if_statement_lim d ts pos))
   \<and> (\<forall>pos A. (A \<longrightarrow> 2 * length ts + 5 \<le> d + 2 * pos \<and> 5 \<le> d) \<longrightarrow> settles A (while_loop_lim d ts pos))
   \<and> (\<forall>pos A. (A \<longrightarrow> 2 * length ts + 5 \<le> d + 2 * pos \<and> 5 \<le> d) \<longrightarrow> settles A (for_loop_lim d ts pos))
   \<and> (\<forall>pos A. (A \<longrightarrow> 2 * length ts + 5 \<le> d + 2 * pos \<and> 5 \<le> d) \<longrightarrow> settles A (block_lim d ts pos))"
proof (induction d)
  case 0
  show ?case by (auto intro!: settles_recursion_error)
next
  case (Suc d)
  have ih_s: "settles A (statement_lim d ts pos)"
    if "A \<Longrightarrow> 2 * length ts + 6 \<le> d + 2 * pos \<and> 6 \<le> d" for pos A
    using that Suc by blast
  have ih_i: "settles A (if_statement_lim d ts pos)"
    if "A \<Longrightarrow> 2 * length ts + 5 \<le> d + 2 * pos \<and> 5 \<le> d" for pos A
    using that Suc by blast
  have ih_w: "settles A (while_loop_lim d ts pos)"
    if "A \<Longrightarrow> 2 * length ts + 5 \<le> d + 2 * pos \<and> 5 \<le> d" for pos A
    using that Suc by blast
  have ih_f: "settles A (for_loop_lim d ts pos)"
    if "A \<Longrightarrow> 2 * length ts + 5 \<le> d + 2 * pos \<and> 5 \<le> d" for pos A
    using that Suc by blast
  have ih_b: "settles A (block_lim d ts pos)"
    if "A \<Longrightarrow> 2 * length ts + 5 \<le> d + 2 * pos \<and> 5 \<le> d" for pos A
    using that Suc by blast
  have ih_l: "settles A (block_loop_lim d (Suc (length ts)) ts pos)"
    if "A \<Longrightarrow> 2 * length ts + 6 \<le> d + 2 * pos \<and> 6 \<le> d" for pos A
    using that by (intro block_loop_lim_settles ih_s) simp_all
  have s: "settles A (statement_lim (Suc d) ts pos)"
    if b: "A \<Longrightarrow> 2 * length ts + 6 \<le> Suc d + 2 * pos \<and> 6 \<le> Suc d" for pos A
  proof -
    have c: "A \<Longrightarrow> 2 * length ts + 5 \<le> d + 2 * pos \<and> 5 \<le> d" using b by auto
    show ?thesis
      using ih_i [OF c] ih_w [OF c] ih_f [OF c] declaration_lim_settles [OF c]
        assignment_lim_settles [OF c] return_statement_lim_settles [OF c] c
      by (auto simp: settles_returned intro!: settles_peek)
  qed
  have i: "settles A (if_statement_lim (Suc d) ts pos)"
    if b: "A \<Longrightarrow> 2 * length ts + 5 \<le> Suc d + 2 * pos \<and> 5 \<le> Suc d" for pos A
    using b
    by (auto simp: settles_returned settles_syntax_error
        intro!: settles_advance_then settles_match_then settles_expression_then
          settles_block_then expression_lim_enough ih_b)
  have w: "settles A (while_loop_lim (Suc d) ts pos)"
    if b: "A \<Longrightarrow> 2 * length ts + 5 \<le> Suc d + 2 * pos \<and> 5 \<le> Suc d" for pos A
    using b
    by (auto simp: settles_returned settles_syntax_error
        intro!: settles_advance_then settles_match_then settles_expression_then
          settles_block_then expression_lim_enough ih_b)
  have f: "settles A (for_loop_lim (Suc d) ts pos)"
    if b: "A \<Longrightarrow> 2 * length ts + 5 \<le> Suc d + 2 * pos \<and> 5 \<le> Suc d" for pos A
    using b
    by (auto simp: settles_returned settles_syntax_error
        intro!: settles_advance_then settles_match_then settles_expression_then
          settles_block_then settles_statement_then settles_assignment_then
          expression_lim_enough assignment_lim_settles ih_b ih_s)
  have bl: "settles A (block_lim (Suc d) ts pos)"
    if b: "A \<Longrightarrow> 2 * length ts + 5 \<le> Suc d + 2 * pos \<and> 5 \<le> Suc d" for pos A
    using b
    by (auto simp: settles_returned simp del: block_loop_lim.simps
        intro!: settles_match_then ih_l)
  show ?case using s i w f bl by blast
qed


lemma statement_lim_enough:
  "(A \<Longrightarrow> 2 * length ts + 6 \<le> d + 2 * pos \<and> 6 \<le> d) \<Longrightarrow> settles A (statement_lim d ts pos)"
  using statement_lim_settles by blast

lemma block_lim_enough:
  "(A \<Longrightarrow> 2 * length ts + 5 \<le> d + 2 * pos \<and> 5 \<le> d) \<Longrightarrow> settles A (block_lim d ts pos)"
  using statement_lim_settles by blast

lemma parse_loop_lim_settles:
  "length ts < k + pos \<Longrightarrow> 0 < k
    \<Longrightarrow> (A \<Longrightarrow> 2 * length ts + 6 \<le> d + 2 * pos \<and> 6 \<le> d)
    \<Longrightarrow> settles A (parse_loop_lim d k ts pos)"
proof (induction k arbitrary: pos)
  case 0
  then show ?case by simp
next
  case (Suc k)
  show ?case
    using Suc.prems
    by (auto simp: settles_returned
        intro!: settles_statement_then settles_peek_raise statement_lim_enough Suc.IH)
qed

lemma main_header_lim_settles:
  "(A \<Longrightarrow> 2 \<le> d) \<Longrightarrow> settles A (main_header_lim d ts pos)"
  unfolding main_header_lim_def
  by (auto simp: settles_returned intro!: settles_match_then settles_match)

lemma main_function_lim_settles:
  assumes "A \<Longrightarrow> 2 * length ts + 5 \<le> d \<and> 5 \<le> d"
  shows "settles A (main_function_lim d ts)"
proof -
  have b: "settles A (block_lim d ts p)" for p
    using assms by (intro block_lim_enough) auto
  have h: "settles A (main_header_lim d ts 0)"
    using assms by (intro main_header_lim_settles) auto
  show ?thesis
    unfolding main_function_lim_def
    by (rule settles_then [OF h])
       (auto simp: settles_returned settles_syntax_error split: prod.splits
        intro!: settles_then b)
qed

lemma parse_body_lim_settles:
  assumes "A \<Longrightarrow> 2 * length ts + 6 \<le> d"
  shows "settles A (parse_body_lim d ts)"
proof -
  have l: "settles A (parse_loop_lim d (length ts + 1) ts p)" for p
    using assms by (intro parse_loop_lim_settles) auto
  have m: "settles A (main_function_lim d ts)"
    using assms by (intro main_function_lim_settles) auto
  show ?thesis
    unfolding parse_body_lim_def by (rule settles_then [OF m]) (rule l)
qed

lemma parse_lim_returns: "\<exists>e. parse_lim d ts = Some e"
proof (cases d)
  case 0
  then show ?thesis by (simp add: parse_lim_def)
next
  case (Suc d')
  have "settles False (parse_body_lim d' ts)" by (rule parse_body_lim_settles) simp
  then obtain r where "parse_body_lim d' ts = Some r" by (auto simp: settles_def)
  then show ?thesis using Suc
    by (cases r) (auto simp: parse_lim_def split: exn.splits)
qed

lemma parse_lim_enough:
  assumes "2 * length ts + 7 \<le> d"
  shows "parse_lim d ts = Some (Printed Accepted)
    \<or> (\<exists>msg. parse_lim d ts = Some (Printed (Rejected msg)))"
proof -
  from assms obtain d' where d: "d = Suc d'" "2 * length ts + 6 \<le> d'" by (cases d) auto
  have "settles True (parse_body_lim d' ts)" by (rule parse_body_lim_settles) (use d in simp)
  then obtain r where "parse_body_lim d' ts = Some r" "r \<noteq> Inl Recursion_Error"
    by (auto simp: settles_def)
  then show ?thesis using d
    by (cases r) (auto simp: parse_lim_def split: exn.splits)
qed

lemma then_run_recursion_error [simp]: "then_run recursion_error f = recursion_error"
  by (simp add: then_run_def recursion_error_def)

lemma then_run_returned [simp]: "then_run (returned x) f = f x"
  by (simp add: then_run_def returned_def)

lemma length_nested [simp]: "length (nested m) = m + 2"
  by (simp add: nested_def)

lemma nested_nth: "2 \<le> pos \<Longrightarrow> pos < m + 2 \<Longrightarrow> nested m ! pos = (''LPAREN'', ''('')"
  by (auto simp: nested_def nth_append nth_Cons split: nat.splits)

lemma peek_nested: "2 \<le> pos \<Longrightarrow> pos < m + 2 \<Longrightarrow> peek (nested m) pos = (''LPAREN'', ''('')"
  by (simp add: peek_def nested_nth)

lemma peek_nested_end: "peek (nested m) (m + 2) = (''EOF'', [])"
  by (simp add: peek_def)

lemma expression_lim_nested:
  "2 \<le> pos \<Longrightarrow> pos + j = m + 2 \<Longrightarrow> d \<le> 2 * j + 3
    \<Longrightarrow> expression_lim d (nested m) pos = recursion_error"
proof (induction j arbitrary: pos d)
  case 0
  then have p: "pos = m + 2" by simp
  consider "d = 0" | "d = 1" | "d = 2" | "d = 3" using 0 by linarith
  then show ?case
  proof cases
    case 1 then show ?thesis by simp
  next
    case 2 then show ?thesis by simp
  next
    case 3 then show ?thesis by (simp add: numeral_2_eq_2 call_peek_def)
  next
    case 4 then show ?thesis
      using peek_nested_end [of m]
      by (simp add: numeral_3_eq_3 p call_peek_def call_match_def)
  qed
next
  case (Suc j)
  then have tok: "peek (nested m) pos = (''LPAREN'', ''('')" by (intro peek_nested) simp_all
  have "d = 0 \<or> d = 1 \<or> d = 2 \<or> d = 3 \<or> (\<exists>d'. d = Suc (Suc d') \<and> 2 \<le> d')"
    by presburger
  then consider "d = 0" | "d = 1" | "d = 2" | "d = 3" | d' where "d = Suc (Suc d')" "2 \<le> d'"
    by blast
  then show ?case
  proof cases
    case 1 then show ?thesis by simp
  next
    case 2 then show ?thesis by simp
  next
    case 3 then show ?thesis by (simp add: numeral_2_eq_2 call_peek_def)
  next
    case 4 then show ?thesis
      using tok by (simp add: numeral_3_eq_3 call_peek_def call_match_def)
  next
    case 5
    have "expression_lim d' (nested m) (Suc pos) = recursion_error"
      using Suc.prems 5 by (intro Suc.IH) simp_all
    moreover have "match (nested m) pos ''LPAREN'' None = (True, Suc pos)"
      using tok by (simp add: match_def advance_def)
    ultimately show ?thesis
      using 5 tok by (simp add: call_peek_def call_match_def)
  qed
qed


lemma peek_nested_0: "peek (nested m) 0 = (''ID'', ''x'')"
  by (simp add: peek_def nested_def)

lemma peek_nested_1: "peek (nested m) (Suc 0) = (''OP'', ''='')"
  by (simp add: peek_def nested_def)

lemma assignment_lim_nested:
  assumes "d \<le> 2 * m + 4"
  shows "assignment_lim d (nested m) 0 = recursion_error"
proof -
  have "d = 0 \<or> d = 1 \<or> d = 2 \<or> (\<exists>d'. d = Suc d' \<and> 2 \<le> d')" by presburger
  then consider "d = 0" | "d = 1" | "d = 2" | d' where "d = Suc d'" "2 \<le> d'" by blast
  then show ?thesis
  proof cases
    case 1 then show ?thesis by (simp add: assignment_lim_def)
  next
    case 2 then show ?thesis by (simp add: assignment_lim_def call_advance_def)
  next
    case 3 then show ?thesis
      by (simp add: assignment_lim_def numeral_2_eq_2 call_advance_def call_match_def)
  next
    case 4
    have "expression_lim d' (nested m) 2 = recursion_error"
      using assms 4 by (intro expression_lim_nested [where j = m]) simp_all
    moreover have "match (nested m) (Suc 0) ''OP'' (Some ''='') = (True, 2)"
      using peek_nested_1 [of m] by (simp add: match_def advance_def)
    ultimately show ?thesis
      using 4 by (simp add: assignment_lim_def call_advance_def advance_def call_match_def)
  qed
qed

lemma statement_lim_nested:
  assumes "d \<le> 2 * m + 5"
  shows "statement_lim d (nested m) 0 = recursion_error"
proof (cases d)
  case 0
  then show ?thesis by simp
next
  case (Suc d')
  show ?thesis
  proof (cases "d' = 0")
    case True
    then show ?thesis using Suc by (simp add: call_peek_def)
  next
    case False
    have "assignment_lim d' (nested m) 0 = recursion_error"
      using assms Suc by (intro assignment_lim_nested) simp
    then show ?thesis using Suc False peek_nested_0 [of m] by (simp add: call_peek_def)
  qed
qed

lemma parse_lim_nested:
  assumes "d \<le> 2 * m + 6"
  shows "parse_lim d (nested m) = Some Unhandled_RecursionError"
proof (cases d)
  case 0
  then show ?thesis by (simp add: parse_lim_def)
next
  case (Suc d')
  have "parse_body_lim d' (nested m) = recursion_error"
  proof (cases "d' < 2")
    case True
    then show ?thesis
      by (simp add: parse_body_lim_def main_function_lim_def main_header_lim_def call_match_def)
  next
    case False
    have h: "match (nested m) 0 ''KEYWORD'' (Some ''int'') = (False, 0)"
      using peek_nested_0 [of m] by (simp add: match_def)
    have "statement_lim d' (nested m) 0 = recursion_error"
      using assms Suc by (intro statement_lim_nested) simp
    then show ?thesis using False h
      by (simp add: parse_body_lim_def main_function_lim_def main_header_lim_def call_match_def)
  qed
  then show ?thesis using Suc by (simp add: parse_lim_def recursion_error_def)
qed

lemma parse_loop_lim_first:
  assumes "parse_loop_lim d k ts pos = Some r"
  shows "\<exists>q. rtranclp (statement_ok d ts) pos q \<and>
    (case r of
       Inr p \<Rightarrow> length ts \<le> q
     | Inl Recursion_Error \<Rightarrow> True
     | Inl (Syntax_Error msg) \<Rightarrow> statement_fails d ts q msg)"
  using assms
proof (induction k arbitrary: pos)
  case 0
  then show ?case by simp
next
  case (Suc k)
  show ?case
  proof (cases "pos < length ts")
    case False
    with Suc.prems have "r = Inr pos" by (simp add: returned_def)
    then show ?thesis using False by (intro exI [of _ pos]) simp
  next
    case True
    note inside = this
    show ?thesis
    proof (cases "statement_lim d ts pos")
      case None
      then show ?thesis using Suc.prems inside by (simp add: then_run_def)
    next
      case (Some x)
      show ?thesis
      proof (cases x)
        case (Inl e)
        then have "r = Inl e" using Suc.prems inside Some by (simp add: then_run_def)
        then show ?thesis using Some Inl inside
          by (intro exI [of _ pos]) (auto simp: statement_fails_def split: exn.splits)
      next
        case (Inr y)
        obtain s p' where y: "y = (s, p')" by force
        show ?thesis
        proof (cases s)
          case True
          then have l: "parse_loop_lim d k ts p' = Some r"
            using Suc.prems inside Some Inr y by (simp add: then_run_def)
          from Suc.IH [OF l] obtain q where q: "rtranclp (statement_ok d ts) p' q"
            "(case r of Inr p \<Rightarrow> length ts \<le> q | Inl Recursion_Error \<Rightarrow> True
              | Inl (Syntax_Error msg) \<Rightarrow> statement_fails d ts q msg)" by blast
          have "statement_ok d ts pos p'"
            using inside Some Inr y True by (simp add: statement_ok_def)
          then have "rtranclp (statement_ok d ts) pos q"
            using q(1) by (rule converse_rtranclp_into_rtranclp)
          then show ?thesis using q(2) by blast
        next
          case False
          then have "then_run (call_peek d ts p') (\<lambda>t.
              syntax_error (''Unexpected token: '' @ repr_token t)) = Some r"
            using Suc.prems inside Some Inr y by (simp add: then_run_def)
          then have "r = Inl Recursion_Error
            \<or> r = Inl (Syntax_Error (''Unexpected token: '' @ repr_token (peek ts p')))"
            by (auto simp: call_peek_def then_run_def recursion_error_def returned_def
                syntax_error_def split: if_splits)
          then show ?thesis using Some Inr y False inside
            by (intro exI [of _ pos]) (auto simp: statement_fails_def)
        qed
      qed
    qed
  qed
qed

section \<open>The scanner and the parser on given programs\<close>

text \<open>
  Claim C5. The source \<^verbatim>\<open>int x = 5;\<close> is scanned into the five tokens keyword \<^verbatim>\<open>int\<close>,
  identifier \<^verbatim>\<open>x\<close>, operator \<^verbatim>\<open>=\<close>, number \<^verbatim>\<open>5\<close> and semicolon, in this order, and the
  parser accepts these tokens.
\<close>

theorem tokenize_parse_declaration:
  "tokenize ''int x = 5;'' =
     [(''KEYWORD'', ''int''), (''ID'', ''x''), (''OP'', ''=''), (''NUMBER'', ''5''),
      (''SEMI'', '';'')]
   \<and> parse [(''KEYWORD'', ''int''), (''ID'', ''x''), (''OP'', ''=''), (''NUMBER'', ''5''),
             (''SEMI'', '';'')] = Some Accepted"
  by code_simp

text \<open>
  Claim C1, as the parser behaves. Without the semicolon the source \<^verbatim>\<open>int x = 5\<close> is
  rejected. The condition of the main function has taken \<^verbatim>\<open>int\<close>, so \<^verbatim>\<open>x = 5\<close> is read by
  \<^verbatim>\<open>assignment\<close>, which returns \<^verbatim>\<open>False\<close> where the semicolon is missing and raises
  nothing; the loop of \<^verbatim>\<open>parse\<close> then raises its own message, which shows the token at the
  cursor, the end of the input.
\<close>

theorem missing_semicolon_message:
  "tokenize ''int x = 5'' =
     [(''KEYWORD'', ''int''), (''ID'', ''x''), (''OP'', ''=''), (''NUMBER'', ''5'')]
   \<and> parse [(''KEYWORD'', ''int''), (''ID'', ''x''), (''OP'', ''=''), (''NUMBER'', ''5'')] =
       Some (Rejected (''Unexpected token: '' @ repr_token (''EOF'', [])))"
  by code_simp

text \<open>
  Claim C1, as it is stated, fails: the message of the rejection is
  \<^verbatim>\<open>Unexpected token: ('EOF', '')\<close>, in which no semicolon occurs.
\<close>

theorem missing_semicolon_counterexample:
  "parse (tokenize ''int x = 5'') =
     Some (Rejected (''Unexpected token: ('EOF', '' @ [CHR 0x27, CHR 0x27] @ '')''))
   \<and> CHR '';'' \<notin> set (''Unexpected token: ('EOF', '' @ [CHR 0x27, CHR 0x27] @ '')'')"
  by code_simp


section \<open>Properties of the scanner\<close>

text \<open>
  Claim C7. A source made of spaces, tabs and newlines only (the empty source too) gives no
  token, and the parser accepts the empty token list.
\<close>

theorem whitespace_only_accepted:
  assumes "set s \<subseteq> {CHR '' '', CHR 0x09, CHR 0x0A}"
  shows "tokenize s = [] \<and> parse [] = Some Accepted \<and> parse (tokenize s) = Some Accepted"
proof -
  have t: "tokenize s = []" using assms by (simp add: tokenize_def scan_whitespace)
  have p: "parse [] = Some Accepted" by code_simp
  show ?thesis using t p by simp
qed

theorem whitespace_only_accepted_witness:
  "set [CHR '' '', CHR 0x09, CHR 0x0A, CHR '' ''] \<subseteq> {CHR '' '', CHR 0x09, CHR 0x0A}
   \<and> tokenize [CHR '' '', CHR 0x09, CHR 0x0A, CHR '' ''] = []
   \<and> parse (tokenize [CHR '' '', CHR 0x09, CHR 0x0A, CHR '' '']) = Some Accepted"
  using whitespace_only_accepted [of "[CHR '' '', CHR 0x09, CHR 0x0A, CHR '' '']"] by simp

text \<open>
  Claim C8. A token whose lexeme is one of the twelve keywords has the kind \<^verbatim>\<open>KEYWORD\<close>,
  whatever the source is, so it never has the kind \<^verbatim>\<open>ID\<close>. The source \<^verbatim>\<open>return\<close> gives a
  keyword and the source \<^verbatim>\<open>returning\<close> an identifier.
\<close>

theorem keyword_reclassified:
  assumes "(k, v) \<in> set (tokenize s)" and "v \<in> set keyword_set"
  shows "k = ''KEYWORD'' \<and> k \<noteq> ''ID''
         \<and> tokenize ''return'' = [(''KEYWORD'', ''return'')]
         \<and> tokenize ''returning'' = [(''ID'', ''returning'')]"
proof -
  have k: "k = ''KEYWORD''" using assms scan_keyword by (simp add: tokenize_def)
  have r: "tokenize ''return'' = [(''KEYWORD'', ''return'')]" by code_simp
  have g: "tokenize ''returning'' = [(''ID'', ''returning'')]" by code_simp
  show ?thesis using k r g by simp
qed

theorem keyword_reclassified_witness:
  "(''KEYWORD'', ''while'') \<in> set (tokenize ''x while y'') \<and> ''while'' \<in> set keyword_set
   \<and> ''KEYWORD'' \<noteq> ''ID''"
proof -
  have t: "tokenize ''x while y'' = [(''ID'', ''x''), (''KEYWORD'', ''while''), (''ID'', ''y'')]"
    by code_simp
  have m: "(''KEYWORD'', ''while'') \<in> set (tokenize ''x while y'')" by (simp add: t)
  have w: "''while'' \<in> set keyword_set" by (simp add: keyword_set_def)
  show ?thesis using keyword_reclassified [OF m w] m w by simp
qed

text \<open>
  Claim C9. Where the text starts with one of the eight two-character operators, the
  scanner takes both characters as one \<^verbatim>\<open>OP\<close> token and goes on behind them; the source
  \<^verbatim>\<open><=\<close> gives the single token \<^verbatim>\<open><=\<close>.
\<close>

theorem operator_maximal_munch:
  assumes "op \<in> set two_char_ops"
  shows "tokenize (op @ rest) = (''OP'', op) # tokenize rest
         \<and> tokenize ''<='' = [(''OP'', ''<='')]"
proof -
  have g: "tokenize (op @ rest) = (''OP'', op) # tokenize rest"
    using assms by (simp add: tokenize_def scan_two_char_op)
  have c: "tokenize ''<='' = [(''OP'', ''<='')]" by code_simp
  show ?thesis using g c by simp
qed

theorem operator_maximal_munch_witness:
  "''<='' \<in> set two_char_ops \<and> tokenize (''<='' @ ''5'') = (''OP'', ''<='') # tokenize ''5''"
proof -
  have m: "''<='' \<in> set two_char_ops" by (simp add: two_char_ops_def)
  show ?thesis using operator_maximal_munch [OF m, of "''5''"] m by simp
qed

text \<open>
  Claim C10. The scanner is a total function from the source to a list of tokens: it has
  no error to return. Where no pattern matches at the position of the scan, the character
  there is passed over and gives no token; the source \<^verbatim>\<open>@\<close> gives the empty list.
\<close>

theorem unmatched_character_skipped:
  "(token_regex (c # cs) = None \<longrightarrow> tokenize (c # cs) = tokenize cs) \<and> tokenize ''@'' = []"
proof -
  have g: "token_regex (c # cs) = None \<longrightarrow> tokenize (c # cs) = tokenize cs"
    by (simp add: tokenize_def)
  have c: "tokenize ''@'' = []" by code_simp
  show ?thesis using g c by simp
qed

theorem unmatched_character_skipped_witness:
  "token_regex ''@x'' = None \<and> tokenize ''@x'' = tokenize ''x''"
proof -
  have n: "token_regex ''@x'' = None" by code_simp
  show ?thesis using unmatched_character_skipped [of "CHR ''@''" "''x''"] n by simp
qed

section \<open>Properties of the parser\<close>

text \<open>
  Claim C2, as the parser behaves. After a term, an \<^verbatim>\<open>OP\<close> token is always taken by
  \<^verbatim>\<open>match\<close>. If its lexeme is one of the thirteen binary operators listed in
  \<^verbatim>\<open>expression\<close>, the loop goes on with the term behind it: when that term is read up
  to \<open>p\<close>, the expression is carried on from \<open>p\<close>. With any other lexeme the loop ends
  behind the operator and the expression returns there, the next term unread.
\<close>

theorem chain_continuation:
  assumes "term_rule (Suc n) ts p0 = Some (Inr pos)" and "peek ts pos = (''OP'', v)"
  shows "(v \<in> set binary_ops \<longrightarrow>
            expression_loop (Suc n) ts pos =
              and_then (term_rule n ts (pos + 1)) (\<lambda>p. expression_loop n ts p)
          \<and> (\<forall>p. term_rule n ts (pos + 1) = Some (Inr p) \<longrightarrow>
                expression (Suc (Suc n)) ts p0 = expression_loop n ts p))
       \<and> (v \<notin> set binary_ops \<longrightarrow> expression (Suc (Suc n)) ts p0 = Some (Inr (pos + 1)))"
proof -
  have m: "match ts pos ''OP'' None = (True, pos + 1)" "snd (ts ! pos) = v"
    using peek_OP [OF assms(2)] by simp_all
  have e: "expression (Suc (Suc n)) ts p0 = expression_loop (Suc n) ts pos"
    using assms(1) by (subst expression.simps) (simp add: and_then_def del: expression_simps)
  have l: "expression_loop (Suc n) ts pos =
      (if v \<in> set binary_ops
       then and_then (term_rule n ts (pos + 1)) (\<lambda>p. expression_loop n ts p)
       else ok (pos + 1))"
    using m by (subst expression_loop.simps) (simp del: expression_simps)
  show ?thesis using e l by (auto simp: and_then_def ok_def)
qed

theorem chain_continuation_witness:
  "term_rule 2 [(''ID'', ''a''), (''OP'', ''<=''), (''ID'', ''b'')] 0 = Some (Inr 1)
   \<and> peek [(''ID'', ''a''), (''OP'', ''<=''), (''ID'', ''b'')] 1 = (''OP'', ''<='')
   \<and> ''<='' \<in> set binary_ops
   \<and> term_rule 1 [(''ID'', ''a''), (''OP'', ''<=''), (''ID'', ''b'')] 2 = Some (Inr 3)
   \<and> expression 3 [(''ID'', ''a''), (''OP'', ''<=''), (''ID'', ''b'')] 0 = Some (Inr 3)"
proof -
  let ?ts = "[(''ID'', ''a''), (''OP'', ''<=''), (''ID'', ''b'')]"
  have t: "term_rule (Suc 1) ?ts 0 = Some (Inr 1)" by code_simp
  have p: "peek ?ts 1 = (''OP'', ''<='')" by code_simp
  have b: "''<='' \<in> set binary_ops" by code_simp
  have u: "term_rule 1 ?ts (1 + 1) = Some (Inr 3)" by code_simp
  have l: "expression_loop 1 ?ts 3 = Some (Inr 3)" by code_simp
  have "expression (Suc (Suc 1)) ?ts 0 = expression_loop 1 ?ts 3"
    using chain_continuation [OF t p] b u by blast
  then have "expression 3 ?ts 0 = Some (Inr 3)" using l by (simp add: eval_nat_numeral)
  then show ?thesis using t p b u by (simp add: eval_nat_numeral)
qed

text \<open>
  Claim C2, as it is stated, fails for the assignment operator: in \<^verbatim>\<open>a = b\<close> the term
  \<^verbatim>\<open>a\<close> is read, the operator is an \<^verbatim>\<open>OP\<close> token and \<^verbatim>\<open>b\<close> is a term, but the
  expression returns at position 2, behind the operator, and not at position 3.
\<close>

theorem chain_continuation_counterexample:
  "term_rule 2 [(''ID'', ''a''), (''OP'', ''=''), (''ID'', ''b'')] 0 = Some (Inr 1)
   \<and> peek [(''ID'', ''a''), (''OP'', ''=''), (''ID'', ''b'')] 1 = (''OP'', ''='')
   \<and> term_rule 1 [(''ID'', ''a''), (''OP'', ''=''), (''ID'', ''b'')] 2 = Some (Inr 3)
   \<and> expression_loop 1 [(''ID'', ''a''), (''OP'', ''=''), (''ID'', ''b'')] 3 = Some (Inr 3)
   \<and> expression 3 [(''ID'', ''a''), (''OP'', ''=''), (''ID'', ''b'')] 0 = Some (Inr 2)
   \<and> expression 3 [(''ID'', ''a''), (''OP'', ''=''), (''ID'', ''b'')] 0 \<noteq>
       expression_loop 1 [(''ID'', ''a''), (''OP'', ''=''), (''ID'', ''b'')] 3"
  by code_simp

text \<open>
  Claim C4. When the first \<open>k\<close> of the four tokens of the main header match, \<open>k\<close> less
  than four, and the next does not, the condition is false with the cursor at \<open>k\<close>:
  \<^verbatim>\<open>parse\<close> goes on with the loop over the statements from position \<open>k\<close>, and its
  outcome is the outcome of that loop.
\<close>

theorem main_prefix_stays_consumed:
  assumes "k < 4"
    and "\<forall>i<k. fst (match ts i (fst (main_prefix ! i)) (snd (main_prefix ! i)))"
    and "\<not> fst (match ts k (fst (main_prefix ! k)) (snd (main_prefix ! k)))"
  shows "main_header ts 0 = (False, k)
       \<and> parse_body n ts = parse_loop n ts k
       \<and> parse_fuel n ts =
           (case parse_loop n ts k of
              None \<Rightarrow> None
            | Some (Inl (SyntaxError msg)) \<Rightarrow> Some (Rejected msg)
            | Some (Inr p) \<Rightarrow> Some Accepted)"
proof -
  have h: "main_header ts 0 = (False, k)" using assms by (rule main_header_partial)
  then have b: "parse_body n ts = parse_loop n ts k"
    by (simp add: parse_body_def and_then_def ok_def)
  show ?thesis using h b by (simp add: parse_fuel_def)
qed

theorem main_prefix_stays_consumed_witness:
  "main_header [(''KEYWORD'', ''int''), (''KEYWORD'', ''main''), (''LPAREN'', ''(''),
                (''ID'', ''x''), (''OP'', ''=''), (''NUMBER'', ''1''), (''SEMI'', '';'')] 0 =
     (False, 3)
   \<and> parse_body 20 [(''KEYWORD'', ''int''), (''KEYWORD'', ''main''), (''LPAREN'', ''(''),
                    (''ID'', ''x''), (''OP'', ''=''), (''NUMBER'', ''1''), (''SEMI'', '';'')] =
       parse_loop 20 [(''KEYWORD'', ''int''), (''KEYWORD'', ''main''), (''LPAREN'', ''(''),
                      (''ID'', ''x''), (''OP'', ''=''), (''NUMBER'', ''1''), (''SEMI'', '';'')] 3
   \<and> parse [(''KEYWORD'', ''int''), (''KEYWORD'', ''main''), (''LPAREN'', ''(''),
             (''ID'', ''x''), (''OP'', ''=''), (''NUMBER'', ''1''), (''SEMI'', '';'')] =
       Some Accepted"
proof -
  let ?ts = "[(''KEYWORD'', ''int''), (''KEYWORD'', ''main''), (''LPAREN'', ''(''),
              (''ID'', ''x''), (''OP'', ''=''), (''NUMBER'', ''1''), (''SEMI'', '';'')]"
  have m0: "fst (match ?ts 0 (fst (main_prefix ! 0)) (snd (main_prefix ! 0)))" by code_simp
  have m1: "fst (match ?ts 1 (fst (main_prefix ! 1)) (snd (main_prefix ! 1)))" by code_simp
  have m2: "fst (match ?ts 2 (fst (main_prefix ! 2)) (snd (main_prefix ! 2)))" by code_simp
  have m3: "\<not> fst (match ?ts 3 (fst (main_prefix ! 3)) (snd (main_prefix ! 3)))" by code_simp
  have a: "\<forall>i<3. fst (match ?ts i (fst (main_prefix ! i)) (snd (main_prefix ! i)))"
  proof (intro allI impI)
    fix i :: nat
    assume "i < 3"
    then consider "i = 0" | "i = 1" | "i = 2" by linarith
    then show "fst (match ?ts i (fst (main_prefix ! i)) (snd (main_prefix ! i)))"
      using m0 m1 m2 by cases simp_all
  qed
  have k: "(3::nat) < 4" by simp
  have p: "parse ?ts = Some Accepted" by code_simp
  show ?thesis using main_prefix_stays_consumed [OF k a m3, of 20] p by simp
qed

text \<open>
  Claim C6, as the code has it. With \<open>d\<close> frames of the interpreter's stack left when it is
  called, \<^verbatim>\<open>parse\<close> ends for every list of tokens, in one of three ways: it prints the
  acceptance, it prints one syntax error, or a \<^verbatim>\<open>RecursionError\<close> goes on to its caller.
  When at least twice the number of tokens plus seven frames are left, it prints. When it
  prints the acceptance, the top-level loop has gone from where the main function left the
  cursor, through statements that all returned \<^verbatim>\<open>True\<close>, to the end of the tokens. When
  it prints a syntax error, the message is that of the first violation: either the main
  function raised it, or the loop went through statements that all returned \<^verbatim>\<open>True\<close> to a
  statement that raised it or returned \<^verbatim>\<open>False\<close>.
\<close>

theorem parse_within_recursion_limit:
  "(\<exists>e. parse_lim d ts = Some e)
   \<and> (2 * length ts + 7 \<le> d \<longrightarrow>
        parse_lim d ts = Some (Printed Accepted)
        \<or> (\<exists>msg. parse_lim d ts = Some (Printed (Rejected msg))))
   \<and> (parse_lim d ts = Some (Printed Accepted) \<longrightarrow>
        (\<exists>p q. main_function_lim (d - 1) ts = Some (Inr p)
           \<and> rtranclp (statement_ok (d - 1) ts) p q \<and> length ts \<le> q))
   \<and> (\<forall>msg. parse_lim d ts = Some (Printed (Rejected msg)) \<longrightarrow>
        main_function_lim (d - 1) ts = Some (Inl (Syntax_Error msg))
        \<or> (\<exists>p q. main_function_lim (d - 1) ts = Some (Inr p)
              \<and> rtranclp (statement_ok (d - 1) ts) p q
              \<and> statement_fails (d - 1) ts q msg))"
proof (intro conjI allI impI)
  show "\<exists>e. parse_lim d ts = Some e" by (rule parse_lim_returns)
next
  assume "2 * length ts + 7 \<le> d"
  then show "parse_lim d ts = Some (Printed Accepted)
    \<or> (\<exists>msg. parse_lim d ts = Some (Printed (Rejected msg)))"
    by (rule parse_lim_enough)
next
  assume a: "parse_lim d ts = Some (Printed Accepted)"
  then obtain d' where d: "d = Suc d'" by (cases d) (auto simp: parse_lim_def)
  from a d obtain r where b: "parse_body_lim d' ts = Some (Inr r)"
    by (auto simp: parse_lim_def split: option.splits sum.splits exn.splits)
  then obtain p where m: "main_function_lim d' ts = Some (Inr p)"
    and l: "parse_loop_lim d' (length ts + 1) ts p = Some (Inr r)"
    unfolding parse_body_lim_def by (auto dest!: then_run_Inr)
  from parse_loop_lim_first [OF l] obtain q
    where "rtranclp (statement_ok d' ts) p q" "length ts \<le> q" by auto
  then show "\<exists>p q. main_function_lim (d - 1) ts = Some (Inr p)
    \<and> rtranclp (statement_ok (d - 1) ts) p q \<and> length ts \<le> q"
    using m d by auto
next
  fix msg
  assume a: "parse_lim d ts = Some (Printed (Rejected msg))"
  then obtain d' where d: "d = Suc d'" by (cases d) (auto simp: parse_lim_def)
  from a d have b: "parse_body_lim d' ts = Some (Inl (Syntax_Error msg))"
    by (auto simp: parse_lim_def split: option.splits sum.splits exn.splits)
  show "main_function_lim (d - 1) ts = Some (Inl (Syntax_Error msg))
    \<or> (\<exists>p q. main_function_lim (d - 1) ts = Some (Inr p)
          \<and> rtranclp (statement_ok (d - 1) ts) p q \<and> statement_fails (d - 1) ts q msg)"
  proof (cases "main_function_lim d' ts")
    case None
    then show ?thesis using b by (simp add: parse_body_lim_def then_run_def)
  next
    case (Some x)
    show ?thesis
    proof (cases x)
      case (Inl e)
      then show ?thesis using b Some d by (simp add: parse_body_lim_def then_run_def)
    next
      case (Inr p)
      then have l: "parse_loop_lim d' (length ts + 1) ts p = Some (Inl (Syntax_Error msg))"
        using b Some by (simp add: parse_body_lim_def then_run_def)
      from parse_loop_lim_first [OF l] obtain q
        where "rtranclp (statement_ok d' ts) p q" "statement_fails d' ts q msg" by auto
      then show ?thesis using Some Inr d by auto
    qed
  qed
qed

theorem parse_within_recursion_limit_witness:
  "parse_lim 15 [(''ID'', ''x''), (''OP'', ''=''), (''LPAREN'', ''(''), (''NUMBER'', ''1'')] =
     Some (Printed (Rejected ''Missing closing parenthesis''))
   \<and> (\<exists>q. rtranclp
         (statement_ok 14 [(''ID'', ''x''), (''OP'', ''=''), (''LPAREN'', ''(''), (''NUMBER'', ''1'')]) 0 q
       \<and> statement_fails 14
           [(''ID'', ''x''), (''OP'', ''=''), (''LPAREN'', ''(''), (''NUMBER'', ''1'')] q
           ''Missing closing parenthesis'')"
proof -
  let ?ts = "[(''ID'', ''x''), (''OP'', ''=''), (''LPAREN'', ''(''), (''NUMBER'', ''1'')]"
  have b: "2 * length ?ts + 7 \<le> (15::nat)" by simp
  have p: "parse_lim 15 ?ts = Some (Printed (Rejected ''Missing closing parenthesis''))"
    by code_simp
  have m: "main_function_lim 14 ?ts = Some (Inr 0)" by code_simp
  from parse_within_recursion_limit [of 15 ?ts] p
  have "main_function_lim (15 - 1) ?ts = Some (Inl (Syntax_Error ''Missing closing parenthesis''))
    \<or> (\<exists>p q. main_function_lim (15 - 1) ?ts = Some (Inr p)
          \<and> rtranclp (statement_ok (15 - 1) ?ts) p q
          \<and> statement_fails (15 - 1) ?ts q ''Missing closing parenthesis'')"
    by blast
  then show ?thesis using p m by simp
qed

text \<open>
  Claim C6 as stated, that no exception goes on to the caller, fails: with the default
  recursion limit of CPython, 1000 frames, of which \<^verbatim>\<open>parse\<close> is given all here, the tokens
  of \<^verbatim>\<open>x =\<close> followed by 500 opening parentheses end in a \<^verbatim>\<open>RecursionError\<close> that
  \<^verbatim>\<open>parse\<close> does not handle. Every parenthesis takes two frames, one of \<^verbatim>\<open>term\<close> and one
  of \<^verbatim>\<open>expression\<close>.
\<close>

theorem parse_propagates_recursion_error:
  "parse_lim 1000 ([(''ID'', ''x''), (''OP'', ''='')] @ replicate 500 (''LPAREN'', ''('')) =
     Some Unhandled_RecursionError"
proof -
  have "parse_lim 1000 (nested 500) = Some Unhandled_RecursionError"
    by (rule parse_lim_nested) simp
  then show ?thesis by (simp only: nested_def)
qed

end
